theory Spec2Isabelle
  imports Main "HOL-Library.AList" "HOL-Library.Word"
begin

unbundle bit_operations_syntax

section \<open>Requests\<close>

text \<open>
  Modelled from the spec: \<^verbatim>\<open>Request.h\<close> is not among the sources. The spec describes a
  request as a value carrying an address, a type (READ/WRITE), the owning core id, the
  arrival timestamp and the decomposed address vector. The completion continuation is
  kept outside the record: \<open>CacheSystem::tick\<close> receives it as the function \<open>complete\<close>
  of the request.
  C++ \<open>long\<close> and \<open>int\<close> values are integers here. The cache code adds clock values and
  latencies and shifts addresses; the row policy subtracts a time stamp from the clock,
  and that subtraction is \<open>long_sub\<close> below, with the wrap-around of the 64-bit machine.
\<close>

datatype Request_Type = READ | WRITE

record Request =
  addr :: int
  type :: Request_Type
  coreid :: int
  arrive :: int
  addr_vec :: "int list"

section \<open>Scheduler.h: the controller-facing interface\<close>

text \<open>
  \<^verbatim>\<open>Controller.h\<close> and \<^verbatim>\<open>DRAM.h\<close> are not among the sources. The scheduler and the row
  policy only call the controller through \<open>is_ready\<close> (two overloads), \<open>is_row_hit\<close>,
  \<open>is_row_open\<close>, \<open>clk\<close>, \<open>rowtable->table\<close> and
  \<open>channel->spec->scope[int(T::Command::PRE)]\<close>; these are the fields of the record
  below, so every theorem holds for any controller. A \<open>ReqIter\<close> is dereferenced before
  the controller looks at it, so the predicates take the request.
  The \<open>std::map\<close> \<open>RowTable::table\<close> is the list of its (key, entry) pairs in iteration
  order.
\<close>

record Entry =
  row :: int
  hits :: int
  timestamp :: int

record 'cmd Controller =
  is_ready :: "Request \<Rightarrow> bool"
  is_row_hit :: "Request \<Rightarrow> bool"
  is_row_open :: "Request \<Rightarrow> bool"
  scope_PRE :: int
  is_ready_cmd :: "'cmd \<Rightarrow> int list \<Rightarrow> bool"
  clk :: int
  table :: "(int list \<times> Entry) list"

section \<open>Scheduler\<close>

text \<open>\<open>Scheduler::Type\<close> without its array-size sentinel \<open>MAX\<close>.\<close>

datatype Scheduler_Type = FCFS | FCFSBank | FRFCFS | BLISS | Custom

text \<open>
  The table \<open>compare[int(type)]\<close>. A \<open>ReqIter\<close> into the queue \<open>q\<close> is the position of
  its element; \<open>req1->arrive\<close> is \<open>arrive (q ! req1)\<close>.
\<close>

fun compare :: "'cmd Controller \<Rightarrow> Scheduler_Type \<Rightarrow> Request list \<Rightarrow> nat \<Rightarrow> nat \<Rightarrow> nat" where
  "compare ctrl FCFS q req1 req2 =
     (if arrive (q ! req1) \<le> arrive (q ! req2) then req1 else req2)"
| "compare ctrl FCFSBank q req1 req2 =
     (let ready1 = is_ready ctrl (q ! req1);
          ready2 = is_ready ctrl (q ! req2)
      in if ready1 \<noteq> ready2 then (if ready1 then req1 else req2)
         else if arrive (q ! req1) \<le> arrive (q ! req2) then req1 else req2)"
| "compare ctrl FRFCFS q req1 req2 =
     (let ready1 = (is_ready ctrl (q ! req1) \<and> is_row_hit ctrl (q ! req1));
          ready2 = (is_ready ctrl (q ! req2) \<and> is_row_hit ctrl (q ! req2))
      in if ready1 \<noteq> ready2 then (if ready1 then req1 else req2)
         else if arrive (q ! req1) \<le> arrive (q ! req2) then req1 else req2)"
| "compare ctrl BLISS q req1 req2 =
     (let ready1 = (is_ready ctrl (q ! req1) \<and> is_row_hit ctrl (q ! req1));
          ready2 = (is_ready ctrl (q ! req2) \<and> is_row_hit ctrl (q ! req2))
      in if ready1 \<noteq> ready2 then (if ready1 then req1 else req2)
         else if arrive (q ! req1) \<le> arrive (q ! req2) then req1 else req2)"
| "compare ctrl Custom q req1 req2 =
     (let ready1 = (is_ready ctrl (q ! req1) \<and> is_row_hit ctrl (q ! req1));
          ready2 = (is_ready ctrl (q ! req2) \<and> is_row_hit ctrl (q ! req2))
      in if ready1 \<noteq> ready2 then (if ready1 then req1 else req2)
         else if arrive (q ! req1) \<le> arrive (q ! req2) then req1 else req2)"

text \<open>
  The loop \<open>for (itr = next(q.begin(), 1); itr != q.end(); itr++) head = compare[..](head, itr)\<close>
  started with \<open>head = q.begin()\<close>, on a non-empty queue.
\<close>

definition scan :: "'cmd Controller \<Rightarrow> Scheduler_Type \<Rightarrow> Request list \<Rightarrow> nat" where
  "scan ctrl ty q = foldl (compare ctrl ty q) 0 [1 ..< length q]"

text \<open>
  \<open>vector<int> rowgroup(begin, begin + scope[PRE] + 1)\<close>: the prefix of the address
  vector down to the level that PRE addresses.
\<close>

definition rowgroup :: "'cmd Controller \<Rightarrow> Request \<Rightarrow> int list" where
  "rowgroup ctrl r = take (nat (scope_PRE ctrl + 1)) (addr_vec r)"

text \<open>The first loop of the second scan: the rowgroups of all row-hit requests.\<close>

definition hit_reqs :: "'cmd Controller \<Rightarrow> Request list \<Rightarrow> int list list" where
  "hit_reqs ctrl q = map (rowgroup ctrl) (filter (is_row_hit ctrl) q)"

definition violate_hit :: "'cmd Controller \<Rightarrow> Request list \<Rightarrow> Request \<Rightarrow> bool" where
  "violate_hit ctrl q r =
     (\<not> is_row_hit ctrl r \<and> is_row_open ctrl r \<and> rowgroup ctrl r \<in> set (hit_reqs ctrl q))"

text \<open>
  One iteration of the second loop; \<open>None\<close> is \<open>q.end()\<close>. The survivors are compared
  with \<open>compare[int(Type::FCFSBank)]\<close>.
\<close>

definition rescan_step :: "'cmd Controller \<Rightarrow> Request list \<Rightarrow> nat option \<Rightarrow> nat \<Rightarrow> nat option" where
  "rescan_step ctrl q head itr =
     (if violate_hit ctrl q (q ! itr) then head
      else (case head of
              None \<Rightarrow> Some itr
            | Some h \<Rightarrow> Some (compare ctrl FCFSBank q h itr)))"

definition rescan :: "'cmd Controller \<Rightarrow> Request list \<Rightarrow> nat option" where
  "rescan ctrl q = foldl (rescan_step ctrl q) None [0 ..< length q]"

text \<open>\<open>Scheduler::get_head\<close>; the result \<open>None\<close> is \<open>q.end()\<close>.\<close>

definition get_head :: "'cmd Controller \<Rightarrow> Scheduler_Type \<Rightarrow> Request list \<Rightarrow> nat option" where
  "get_head ctrl ty q =
     (if ty = FCFS \<or> ty = FCFSBank then
        (if q = [] then None else Some (scan ctrl ty q))
      else
        (if q = [] then None
         else let head = scan ctrl ty q
              in if is_ready ctrl (q ! head) \<and> is_row_hit ctrl (q ! head) then Some head
                 else rescan ctrl q))"

text \<open>Ready and row hit: the priority class of the FRFCFS comparator.\<close>

definition ready_hit :: "'cmd Controller \<Rightarrow> Request \<Rightarrow> bool" where
  "ready_hit ctrl r = (is_ready ctrl r \<and> is_row_hit ctrl r)"

text \<open>
  The invariant of the scan: after the positions below \<open>m\<close> have been compared, \<open>h\<close> is one
  of them, and if any of them is ready and a row hit then \<open>h\<close> is the first one of least
  arrival time among those.
\<close>

definition best_upto :: "'cmd Controller \<Rightarrow> Request list \<Rightarrow> nat \<Rightarrow> nat \<Rightarrow> bool" where
  "best_upto ctrl q m h =
     (h < m \<and>
      ((\<exists>i<m. ready_hit ctrl (q ! i)) \<longrightarrow>
         ready_hit ctrl (q ! h) \<and>
         (\<forall>i<m. ready_hit ctrl (q ! i) \<longrightarrow> arrive (q ! h) \<le> arrive (q ! i)) \<and>
         (\<forall>i<h. ready_hit ctrl (q ! i) \<longrightarrow> arrive (q ! h) < arrive (q ! i))))"

section \<open>RowPolicy\<close>

datatype RowPolicy_Type = Closed | ClosedAP | Opened | Timeout

record RowPolicy =
  type :: RowPolicy_Type
  timeout :: int

text \<open>The default member initialisers \<open>type = Type::Timeout\<close> and \<open>timeout = 50\<close>.\<close>

definition RowPolicy_new :: RowPolicy where
  "RowPolicy_new = \<lparr>type = Timeout, timeout = 50\<rparr>"

text \<open>
  \<open>a - b\<close> on two \<open>long\<close> values \<open>a\<close> and \<open>b\<close>: the difference modulo \<open>2^64\<close>, read as a signed
  64-bit number. (Where the mathematical difference does not fit, C++ leaves the result
  undefined; this is what the two's-complement machine computes.)
\<close>

definition long_sub :: "int \<Rightarrow> int \<Rightarrow> int" where
  "long_sub a b = sint (word_of_int a - word_of_int b :: 64 word)"

text \<open>
  The loops of the policy lambdas over \<open>rowtable->table\<close>; \<open>continue\<close> is the recursive
  call on the remaining entries, the empty list is \<open>vector<int>()\<close>.
\<close>

fun policy_Closed :: "'cmd Controller \<Rightarrow> 'cmd \<Rightarrow> (int list \<times> Entry) list \<Rightarrow> int list" where
  "policy_Closed ctrl cmd [] = []"
| "policy_Closed ctrl cmd (kv # rest) =
     (if \<not> is_ready_cmd ctrl cmd (fst kv) then policy_Closed ctrl cmd rest
      else fst kv)"

fun policy_Timeout :: "'cmd Controller \<Rightarrow> int \<Rightarrow> 'cmd \<Rightarrow> (int list \<times> Entry) list \<Rightarrow> int list" where
  "policy_Timeout ctrl tmo cmd [] = []"
| "policy_Timeout ctrl tmo cmd (kv # rest) =
     (if long_sub (Controller.clk ctrl) (timestamp (snd kv)) < tmo
      then policy_Timeout ctrl tmo cmd rest
      else if \<not> is_ready_cmd ctrl cmd (fst kv) then policy_Timeout ctrl tmo cmd rest
      else fst kv)"

definition get_victim :: "'cmd Controller \<Rightarrow> RowPolicy \<Rightarrow> 'cmd \<Rightarrow> int list" where
  "get_victim ctrl rp cmd =
     (case RowPolicy.type rp of
        Closed \<Rightarrow> policy_Closed ctrl cmd (table ctrl)
      | ClosedAP \<Rightarrow> policy_Closed ctrl cmd (table ctrl)
      | Opened \<Rightarrow> []
      | Timeout \<Rightarrow> policy_Timeout ctrl (timeout rp) cmd (table ctrl))"

text \<open>
  An entry that the Timeout policy may return: timed out and ready. \<open>expired_ready\<close>
  states the test as \<open>clk - timestamp \<ge> timeout\<close> over the integers,
  \<open>expired_ready_long\<close> with the subtraction of the machine; \<open>in_long_range\<close> says that
  the difference fits a \<open>long\<close>.
\<close>

definition expired_ready :: "'cmd Controller \<Rightarrow> RowPolicy \<Rightarrow> 'cmd \<Rightarrow> int list \<times> Entry \<Rightarrow> bool" where
  "expired_ready ctrl rp cmd kv =
     (Controller.clk ctrl - timestamp (snd kv) \<ge> timeout rp \<and> is_ready_cmd ctrl cmd (fst kv))"

definition expired_ready_long :: "'cmd Controller \<Rightarrow> RowPolicy \<Rightarrow> 'cmd \<Rightarrow> int list \<times> Entry \<Rightarrow> bool" where
  "expired_ready_long ctrl rp cmd kv =
     (long_sub (Controller.clk ctrl) (timestamp (snd kv)) \<ge> timeout rp \<and>
      is_ready_cmd ctrl cmd (fst kv))"

definition in_long_range :: "'cmd Controller \<Rightarrow> int list \<times> Entry \<Rightarrow> bool" where
  "in_long_range ctrl kv =
     (- (2 ^ 63) \<le> Controller.clk ctrl - timestamp (snd kv) \<and>
      Controller.clk ctrl - timestamp (snd kv) < 2 ^ 63)"

section \<open>CacheSystem\<close>

text \<open>
  The shared clock and the two delivery queues. \<open>send_memory\<close> and the requests'
  completion callbacks are code outside the cache system; they act on an environment
  \<open>'e\<close> (the memory and the processor), which \<open>tick\<close> threads through its calls in the
  order in which the code makes them.
\<close>

record CacheSystem =
  clk :: int
  wait_list :: "(int \<times> Request) list"
  hit_list :: "(int \<times> Request) list"

text \<open>
  \<open>while (it != wait_list.end() && clk >= it->first)\<close>: the argument list is the part of
  \<open>wait_list\<close> from \<open>it\<close> on, the result is what remains of it.
\<close>

fun drain_wait_list ::
  "(Request \<Rightarrow> 'e \<Rightarrow> bool \<times> 'e) \<Rightarrow> int \<Rightarrow> (int \<times> Request) list \<Rightarrow> 'e \<Rightarrow> (int \<times> Request) list \<times> 'e" where
  "drain_wait_list send_memory now [] env = ([], env)"
| "drain_wait_list send_memory now (x # rest) env =
     (if now \<ge> fst x then
        (case send_memory (snd x) env of
           (ok, env') \<Rightarrow>
             if \<not> ok then
               (case drain_wait_list send_memory now rest env' of
                  (rest', env'') \<Rightarrow> (x # rest', env''))
             else drain_wait_list send_memory now rest env')
      else (x # rest, env))"

text \<open>\<open>while (it != hit_list.end())\<close> with its two branches.\<close>

fun drain_hit_list ::
  "(Request \<Rightarrow> 'e \<Rightarrow> 'e) \<Rightarrow> int \<Rightarrow> (int \<times> Request) list \<Rightarrow> 'e \<Rightarrow> (int \<times> Request) list \<times> 'e" where
  "drain_hit_list complete now [] env = ([], env)"
| "drain_hit_list complete now (x # rest) env =
     (if now \<ge> fst x then drain_hit_list complete now rest (complete (snd x) env)
      else (case drain_hit_list complete now rest env of
              (rest', env') \<Rightarrow> (x # rest', env')))"

definition CacheSystem_tick ::
  "(Request \<Rightarrow> 'e \<Rightarrow> bool \<times> 'e) \<Rightarrow> (Request \<Rightarrow> 'e \<Rightarrow> 'e) \<Rightarrow> CacheSystem \<times> 'e \<Rightarrow> CacheSystem \<times> 'e" where
  "CacheSystem_tick send_memory complete s =
     (case s of (cs, env) \<Rightarrow>
        let now = CacheSystem.clk cs + 1 in
        (case drain_wait_list send_memory now (wait_list cs) env of
           (wl, env1) \<Rightarrow>
             (case drain_hit_list complete now (hit_list cs) env1 of
                (hl, env2) \<Rightarrow> (cs\<lparr>clk := now, wait_list := wl, hit_list := hl\<rparr>, env2))))"

text \<open>
  The answers of \<open>send_memory\<close> to a sequence of requests tried one after the other, and
  the environment after the last one.
\<close>

fun attempts :: "(Request \<Rightarrow> 'e \<Rightarrow> bool \<times> 'e) \<Rightarrow> Request list \<Rightarrow> 'e \<Rightarrow> bool list \<times> 'e" where
  "attempts send_memory [] env = ([], env)"
| "attempts send_memory (r # rs) env =
     (case send_memory r env of
        (ok, env') \<Rightarrow> (case attempts send_memory rs env' of (oks, env'') \<Rightarrow> (ok # oks, env'')))"

text \<open>The entries of a list that were refused, given the answer for each entry.\<close>

definition refused :: "'a list \<Rightarrow> bool list \<Rightarrow> 'a list" where
  "refused xs oks = map fst (filter (\<lambda>p. \<not> snd p) (zip xs oks))"

section \<open>Cache: data\<close>

text \<open>
  \<^verbatim>\<open>Cache.h\<close> is not among the sources: the class layout of \<open>Cache\<close>, \<open>Line\<close> and
  \<open>CacheSystem\<close> is taken from the way \<^verbatim>\<open>Cache_example.cpp\<close> uses the members, and the
  small inline helpers it declares are modelled from the spec, each marked so.
\<close>

datatype CacheLevel = L1 | L2 | L3

text \<open>A cache line: \<open>addr\<close>, \<open>tag\<close>, \<open>lock\<close> and \<open>dirty\<close>, as the code reads and writes them.\<close>

record Line =
  addr :: int
  tag :: int
  lock :: bool
  dirty :: bool

text \<open>
  Modelled from the spec: the two-argument constructor \<open>Line(addr, tag)\<close> of \<^verbatim>\<open>Cache.h\<close>.
  Newly allocated lines start with \<open>lock = true\<close> and \<open>dirty = false\<close>.
\<close>

definition Line_new :: "int \<Rightarrow> int \<Rightarrow> Line" where
  "Line_new a t = \<lparr>addr = a, tag = t, lock = True, dirty = False\<rparr>"

text \<open>
  Modelled from the spec: the constructor \<open>Request(addr, type)\<close> of \<^verbatim>\<open>Request.h\<close> that
  \<open>Cache::evict\<close> uses for the write-back. It fixes the address and the type; the values of the other
  fields are placeholders, and no theorem looks at them.
\<close>

definition Request_new :: "int \<Rightarrow> Request_Type \<Rightarrow> Request" where
  "Request_new a t = \<lparr>Request.addr = a, type = t, coreid = 0, arrive = 0, addr_vec = []\<rparr>"

text \<open>
  A set is a \<open>std::list<Line>\<close>. The MSHR table keeps \<open>std::list<Line>::iterator\<close>s for
  as long as the miss is outstanding, and such an iterator stays valid while other
  elements are inserted and erased. Each list node therefore carries an identity: a
  number drawn from the counter \<open>next_node\<close> of its cache when the node is pushed. An
  iterator that is used at once (the result of a \<open>find_if\<close>) is the position in the list;
  an iterator that is stored is the pair of the set index and the node identity.
\<close>

type_synonym node = "nat \<times> Line"
type_synonym line_iter = "int \<times> nat"

text \<open>
  The members of \<open>Cache\<close>. \<open>cache_lines\<close> is the \<open>std::map<int, std::list<Line>>\<close> as an
  association list, \<open>mshr_entries\<close> the vector of (address, iterator) pairs, the ten
  statistics are counters. The wiring (\<open>lower_cache\<close>, \<open>higher_cache\<close>) is not a field:
  it is the shape of the hierarchy below.
\<close>

record Cache =
  level :: CacheLevel
  is_first_level :: bool
  is_last_level :: bool
  assoc :: nat
  block_size :: int
  mshr_entry_num :: nat
  index_mask :: int
  index_offset :: nat
  tag_offset :: nat
  cache_lines :: "(int \<times> node list) list"
  mshr_entries :: "(int \<times> line_iter) list"
  retry_list :: "Request list"
  next_node :: nat
  cache_read_miss :: nat
  cache_write_miss :: nat
  cache_total_miss :: nat
  cache_eviction :: nat
  cache_read_access :: nat
  cache_write_access :: nat
  cache_total_access :: nat
  cache_mshr_hit :: nat
  cache_mshr_unavailable :: nat
  cache_set_unavailable :: nat

text \<open>
  The arrays \<open>latency[]\<close> and \<open>latency_each[]\<close>, indexed by \<open>int(level)\<close>; their values
  are declared in \<^verbatim>\<open>Cache.h\<close> and are a parameter of every function that reads them.
\<close>

record Latencies =
  latency :: "CacheLevel \<Rightarrow> int"
  latency_each :: "CacheLevel \<Rightarrow> int"

text \<open>
  A cache together with its \<open>higher_cache\<close> vector, each higher cache with its own
  higher caches in turn. \<open>concatlower\<close> builds exactly such trees when every cache is
  linked to one lower cache once.
\<close>

datatype Hierarchy = Hier Cache "Hierarchy list"

fun cache_of :: "Hierarchy \<Rightarrow> Cache" where
  "cache_of (Hier c hs) = c"

text \<open>
  What stops the program: a failed \<open>assert\<close>, a call through a null \<open>lower_cache\<close>, the
  use of an iterator whose node is gone or the increment of \<open>end()\<close>. \<open>NotWired\<close> is not
  a behaviour of the program: it marks a position that does not exist in the hierarchy.
\<close>

datatype Fault = AssertionFailed | NullPointer | InvalidIterator | NotWired

text \<open>
  The view from one cache: the cache system, the cache, its higher caches, and below it
  the chain of lower caches. A frame of the chain is a lower cache with the other
  entries of its \<open>higher_cache\<close> vector, those before and those after the cache above.
  An empty chain is \<open>lower_cache == nullptr\<close>.
\<close>

type_synonym frame = "Cache \<times> Hierarchy list \<times> Hierarchy list"
type_synonym view = "CacheSystem \<times> Cache \<times> Hierarchy list \<times> frame list"

text \<open>The part of a view that one call touches without moving down: only the next lower cache.\<close>

type_synonym local_view = "CacheSystem \<times> Cache \<times> Hierarchy list \<times> Cache option"

section \<open>Cache: the helpers of Cache.h\<close>

text \<open>
  Modelled from the spec: \<open>get_index\<close> of \<^verbatim>\<open>Cache.h\<close>,
  \<open>index(a) = (a >> index_offset) & index_mask\<close>.
\<close>

definition get_index :: "Cache \<Rightarrow> int \<Rightarrow> int" where
  "get_index c a = (drop_bit (index_offset c) a) AND index_mask c"

text \<open>Modelled from the spec: \<open>get_tag\<close> of \<^verbatim>\<open>Cache.h\<close>, \<open>tag(a) = a >> tag_offset\<close>.\<close>

definition get_tag :: "Cache \<Rightarrow> int \<Rightarrow> int" where
  "get_tag c a = drop_bit (tag_offset c) a"

text \<open>
  Modelled from the spec: \<open>align\<close> of \<^verbatim>\<open>Cache.h\<close>, \<open>align(a) = a & ~(block_size - 1)\<close>, the
  block-aligned address used for MSHR matching.
\<close>

definition align :: "Cache \<Rightarrow> int \<Rightarrow> int" where
  "align c a = a AND NOT (block_size c - 1)"

text \<open>\<open>std::find_if\<close>: the position of the first element that satisfies the predicate.\<close>

fun find_if :: "('a \<Rightarrow> bool) \<Rightarrow> 'a list \<Rightarrow> nat option" where
  "find_if P [] = None"
| "find_if P (x # xs) = (if P x then Some 0 else map_option Suc (find_if P xs))"

text \<open>\<open>erase\<close> at a position.\<close>

definition erase :: "nat \<Rightarrow> 'a list \<Rightarrow> 'a list" where
  "erase i xs = take i xs @ drop (Suc i) xs"

text \<open>The lambda \<open>[addr, this](Line l) { return l.tag == get_tag(addr); }\<close> on a node.\<close>

definition tag_match :: "Cache \<Rightarrow> int \<Rightarrow> node \<Rightarrow> bool" where
  "tag_match c a n = (tag (snd n) = get_tag c a)"

text \<open>\<open>cache_lines.find(idx)\<close> and the assignment through a reference to a set.\<close>

definition lines_at :: "Cache \<Rightarrow> int \<Rightarrow> node list option" where
  "lines_at c idx = map_of (cache_lines c) idx"

definition put_lines :: "int \<Rightarrow> node list \<Rightarrow> Cache \<Rightarrow> Cache" where
  "put_lines idx ls c = c\<lparr>cache_lines := AList.update idx ls (cache_lines c)\<rparr>"

text \<open>
  Modelled from the spec: \<open>get_lines\<close> of \<^verbatim>\<open>Cache.h\<close> looks up \<open>sets[index(addr)]\<close>,
  allocating an empty set if absent. The result is the cache after the lookup and the list referred to.
\<close>

definition get_lines :: "Cache \<Rightarrow> int \<Rightarrow> Cache \<times> node list" where
  "get_lines c a =
     (case lines_at c (get_index c a) of
        None \<Rightarrow> (put_lines (get_index c a) [] c, [])
      | Some ls \<Rightarrow> (c, ls))"

text \<open>
  Modelled from the spec: \<open>hit_mshr\<close> of \<^verbatim>\<open>Cache.h\<close> finds the MSHR entry whose block-aligned address
  equals \<open>align(addr)\<close>; \<open>None\<close> is \<open>mshr_entries.end()\<close>.
\<close>

definition hit_mshr :: "Cache \<Rightarrow> int \<Rightarrow> nat option" where
  "hit_mshr c a = find_if (\<lambda>e. align c (fst e) = align c a) (mshr_entries c)"

text \<open>
  Modelled from the spec: \<open>all_sets_locked\<close> of \<^verbatim>\<open>Cache.h\<close> holds when every line in the
  set is locked and the set is full.
\<close>

definition all_sets_locked :: "Cache \<Rightarrow> node list \<Rightarrow> bool" where
  "all_sets_locked c lines =
     (if length lines < assoc c then False else list_all (\<lambda>n. lock (snd n)) lines)"

text \<open>
  Modelled from the spec: \<open>check_unlock(addr)\<close> of \<^verbatim>\<open>Cache.h\<close> holds when the cache
  either lacks the block or holds it unlocked.
\<close>

definition check_unlock :: "Cache \<Rightarrow> int \<Rightarrow> bool" where
  "check_unlock c a =
     (case lines_at c (get_index c a) of
        None \<Rightarrow> True
      | Some ls \<Rightarrow>
          (case find_if (tag_match c a) ls of
             None \<Rightarrow> True
           | Some i \<Rightarrow> \<not> lock (snd (ls ! i))))"

text \<open>
  A write through a stored iterator: the node is looked up by its identity in the set
  the iterator points into; \<open>None\<close> when the node is no longer there.
\<close>

definition update_node :: "line_iter \<Rightarrow> (Line \<Rightarrow> Line) \<Rightarrow> Cache \<Rightarrow> Cache option" where
  "update_node it f c =
     (case lines_at c (fst it) of
        None \<Rightarrow> None
      | Some ls \<Rightarrow>
          (case find_if (\<lambda>n. fst n = snd it) ls of
             None \<Rightarrow> None
           | Some i \<Rightarrow> Some (put_lines (fst it) (ls[i := (snd it, f (snd (ls ! i)))]) c)))"

text \<open>\<open>lines.push_back(l)\<close> on the set \<open>idx\<close>, which holds \<open>ls\<close>: the new node takes the next identity.\<close>

definition push_line :: "int \<Rightarrow> node list \<Rightarrow> Line \<Rightarrow> Cache \<Rightarrow> Cache" where
  "push_line idx ls l c = (put_lines idx (ls @ [(next_node c, l)]) c)\<lparr>next_node := Suc (next_node c)\<rparr>"

section \<open>Cache: invalidate, refresh_lru_lower, callback\<close>

text \<open>
  \<open>Cache::invalidate\<close> on a cache and its higher caches. The loop over \<open>higher_cache\<close>
  is \<open>invalidate_higher\<close>; it carries \<open>max_delay\<close> and \<open>dirty\<close>. The code reads
  \<open>line->dirty\<close> after \<open>lines.erase(line)\<close>; the value is the one the line had when it was
  erased, passed on as \<open>ld\<close>.
\<close>

fun invalidate :: "Latencies \<Rightarrow> int \<Rightarrow> Hierarchy \<Rightarrow> Fault + ((int \<times> bool) \<times> Hierarchy)"
and invalidate_higher ::
  "Latencies \<Rightarrow> int \<Rightarrow> int \<Rightarrow> bool \<Rightarrow> Hierarchy list \<Rightarrow> int \<times> bool \<Rightarrow> Fault + ((int \<times> bool) \<times> Hierarchy list)"
where
  "invalidate lat a (Hier c hs) =
     (let delay = latency_each lat (level c) in
      case get_lines c a of
        (c1, lines) \<Rightarrow>
          if length lines = 0 then Inr ((0, False), Hier c1 hs)
          else
            (case find_if (tag_match c a) lines of
               None \<Rightarrow> Inr ((delay, False), Hier c1 hs)
             | Some i \<Rightarrow>
                 if lock (snd (lines ! i)) then Inl AssertionFailed
                 else
                   (let c2 = put_lines (get_index c a) (erase i lines) c1;
                        ld = dirty (snd (lines ! i))
                    in if hs \<noteq> [] then
                         (case invalidate_higher lat a delay ld hs (delay, False) of
                            Inl f \<Rightarrow> Inl f
                          | Inr (r, hs') \<Rightarrow> Inr (r, Hier c2 hs'))
                       else Inr ((delay, ld), Hier c2 hs))))"
| "invalidate_higher lat a delay ld [] acc = Inr (acc, [])"
| "invalidate_higher lat a delay ld (hc # rest) acc =
     (case invalidate lat a hc of
        Inl f \<Rightarrow> Inl f
      | Inr (result, hc') \<Rightarrow>
          (case invalidate_higher lat a delay ld rest
                  (if snd result then max (fst acc) (delay + fst result * 2)
                   else max (fst acc) (delay + fst result),
                   snd acc \<or> ld \<or> snd result) of
             Inl f \<Rightarrow> Inl f
           | Inr (r, rest') \<Rightarrow> Inr (r, hc' # rest')))"

text \<open>\<open>Cache::refresh_lru_lower\<close>, with its two assertions.\<close>

definition refresh_lru_lower :: "int \<Rightarrow> bool \<Rightarrow> Cache \<Rightarrow> Fault + Cache" where
  "refresh_lru_lower a d c =
     (case lines_at c (get_index c a) of
        None \<Rightarrow> Inl AssertionFailed
      | Some lines \<Rightarrow>
          (case find_if (tag_match c a) lines of
             None \<Rightarrow> Inl AssertionFailed
           | Some i \<Rightarrow>
               (let l = \<lparr>addr = a, tag = get_tag c a, lock = False,
                         dirty = (d \<or> dirty (snd (lines ! i)))\<rparr>;
                    c1 = push_line (get_index c a) lines l c
                in Inr (put_lines (get_index c a) (erase i (lines @ [(next_node c, l)])) c1))))"

text \<open>
  \<open>Cache::callback\<close> on a cache and its higher caches. The entry found is
  \<open>mshr_entries ! i\<close>; \<open>it->second->lock = false\<close> writes through its stored iterator.
\<close>

definition callback_here :: "Request \<Rightarrow> Cache \<Rightarrow> Fault + Cache" where
  "callback_here req c =
     (case find_if (\<lambda>e. align c (fst e) = align c (Request.addr req)) (mshr_entries c) of
        None \<Rightarrow> Inr c
      | Some i \<Rightarrow>
          (case update_node (snd (mshr_entries c ! i)) (\<lambda>l. l\<lparr>lock := False\<rparr>) c of
             None \<Rightarrow> Inl InvalidIterator
           | Some c1 \<Rightarrow> Inr (c1\<lparr>mshr_entries := erase i (mshr_entries c1)\<rparr>)))"

fun callback :: "Request \<Rightarrow> Hierarchy \<Rightarrow> Fault + Hierarchy"
and callback_higher :: "Request \<Rightarrow> Hierarchy list \<Rightarrow> Fault + Hierarchy list"
where
  "callback req (Hier c hs) =
     (case callback_here req c of
        Inl f \<Rightarrow> Inl f
      | Inr c1 \<Rightarrow>
          (case callback_higher req hs of
             Inl f \<Rightarrow> Inl f
           | Inr hs' \<Rightarrow> Inr (Hier c1 hs')))"
| "callback_higher req [] = Inr []"
| "callback_higher req (hc # rest) =
     (case callback req hc of
        Inl f \<Rightarrow> Inl f
      | Inr hc' \<Rightarrow>
          (case callback_higher req rest of
             Inl f \<Rightarrow> Inl f
           | Inr rest' \<Rightarrow> Inr (hc' # rest')))"

section \<open>Cache: is_hit, need_eviction, evict, allocate_line\<close>

text \<open>\<open>Cache::is_hit\<close>: the position written to \<open>*pos_ptr\<close> and the result.\<close>

definition is_hit :: "Cache \<Rightarrow> node list \<Rightarrow> int \<Rightarrow> nat option \<times> bool" where
  "is_hit c lines a =
     (case find_if (tag_match c a) lines of
        None \<Rightarrow> (None, False)
      | Some pos \<Rightarrow> (Some pos, \<not> lock (snd (lines ! pos))))"

text \<open>\<open>Cache::need_eviction\<close>: a line with the tag of \<open>addr\<close> in the set is \<open>assert(false)\<close>.\<close>

definition need_eviction :: "Cache \<Rightarrow> node list \<Rightarrow> int \<Rightarrow> Fault + bool" where
  "need_eviction c lines a =
     (if find_if (tag_match c a) lines \<noteq> None then Inl AssertionFailed
      else if length lines < assoc c then Inr False
      else Inr True)"

text \<open>
  The victim lambda of \<open>allocate_line\<close>: \<open>check = !line.lock\<close>, and unless this is the
  first level, \<open>check = check && hc->check_unlock(line.addr)\<close> for every higher cache.
\<close>

definition victim_ok :: "Cache \<Rightarrow> Hierarchy list \<Rightarrow> node \<Rightarrow> bool" where
  "victim_ok c hs n =
     (if \<not> is_first_level c
      then \<not> lock (snd n) \<and> list_all (\<lambda>hc. check_unlock (cache_of hc) (addr (snd n))) hs
      else \<not> lock (snd n))"

text \<open>
  The first loop of \<open>Cache::evict\<close>: invalidate the victim's address in every higher
  cache; the accumulator is (\<open>invalidate_time\<close>, \<open>dirty\<close>), \<open>vd\<close> is \<open>victim->dirty\<close>.
\<close>

fun evict_invalidate ::
  "Latencies \<Rightarrow> CacheLevel \<Rightarrow> int \<Rightarrow> bool \<Rightarrow> Hierarchy list \<Rightarrow> int \<times> bool \<Rightarrow>
     Fault + ((int \<times> bool) \<times> Hierarchy list)" where
  "evict_invalidate lat lv a vd [] acc = Inr (acc, [])"
| "evict_invalidate lat lv a vd (hc # rest) acc =
     (case invalidate lat a hc of
        Inl f \<Rightarrow> Inl f
      | Inr (result, hc') \<Rightarrow>
          (case evict_invalidate lat lv a vd rest
                  (max (fst acc) (fst result + (if snd result then latency_each lat lv else 0)),
                   snd acc \<or> snd result \<or> vd) of
             Inl f \<Rightarrow> Inl f
           | Inr (r, rest') \<Rightarrow> Inr (r, hc' # rest')))"

text \<open>
  \<open>Cache::evict(lines, victim)\<close>: \<open>lines\<close> is the set \<open>idx\<close> of this cache, holding \<open>ls\<close>,
  and \<open>victim\<close> a position in it.
\<close>

definition evict :: "Latencies \<Rightarrow> int \<Rightarrow> node list \<Rightarrow> nat \<Rightarrow> local_view \<Rightarrow> Fault + local_view" where
  "evict lat idx ls victim v =
     (case v of (cs, c, hs, lower) \<Rightarrow>
        let c1 = c\<lparr>cache_eviction := Suc (cache_eviction c)\<rparr>;
            a = addr (snd (ls ! victim));
            vd = dirty (snd (ls ! victim))
        in case evict_invalidate lat (level c) a vd hs (0, vd) of
             Inl f \<Rightarrow> Inl f
           | Inr ((invalidate_time, d), hs') \<Rightarrow>
               if \<not> is_last_level c then
                 (case lower of
                    None \<Rightarrow> Inl AssertionFailed
                  | Some lc \<Rightarrow>
                      (case refresh_lru_lower a d lc of
                         Inl f \<Rightarrow> Inl f
                       | Inr lc' \<Rightarrow> Inr (cs, put_lines idx (erase victim ls) c1, hs', Some lc')))
               else if d then
                 Inr (cs\<lparr>wait_list := wait_list cs @
                           [(CacheSystem.clk cs + invalidate_time + latency lat (level c),
                             Request_new a WRITE)]\<rparr>,
                      put_lines idx (erase victim ls) c1, hs', lower)
               else Inr (cs, put_lines idx (erase victim ls) c1, hs', lower))"

text \<open>
  \<open>Cache::allocate_line(lines, addr)\<close>. The result is the iterator to the new line, to
  be stored in the MSHR table, or \<open>None\<close> for \<open>lines.end()\<close>.
\<close>

definition allocate_line ::
  "Latencies \<Rightarrow> int \<Rightarrow> node list \<Rightarrow> int \<Rightarrow> local_view \<Rightarrow> Fault + (line_iter option \<times> local_view)" where
  "allocate_line lat idx ls a v =
     (case v of (cs, c, hs, lower) \<Rightarrow>
        case need_eviction c ls a of
          Inl f \<Rightarrow> Inl f
        | Inr True \<Rightarrow>
            (case find_if (victim_ok c hs) ls of
               None \<Rightarrow> Inr (None, v)
             | Some victim \<Rightarrow>
                 (case evict lat idx ls victim v of
                    Inl f \<Rightarrow> Inl f
                  | Inr (cs', c', hs', lower') \<Rightarrow>
                      Inr (Some (idx, next_node c'),
                           (cs', push_line idx (erase victim ls) (Line_new a (get_tag c a)) c',
                            hs', lower'))))
        | Inr False \<Rightarrow>
            Inr (Some (idx, next_node c),
                 (cs, push_line idx ls (Line_new a (get_tag c a)) c, hs, lower)))"

section \<open>Cache::send\<close>

definition count_access :: "Request \<Rightarrow> Cache \<Rightarrow> Cache" where
  "count_access req c =
     (let c1 = c\<lparr>cache_total_access := Suc (cache_total_access c)\<rparr>
      in if Request.type req = WRITE
         then c1\<lparr>cache_write_access := Suc (cache_write_access c1)\<rparr>
         else c1\<lparr>cache_read_access := Suc (cache_read_access c1)\<rparr>)"

definition count_miss :: "Request \<Rightarrow> Cache \<Rightarrow> Cache" where
  "count_miss req c =
     (let c1 = c\<lparr>cache_total_miss := Suc (cache_total_miss c)\<rparr>
      in if Request.type req = WRITE
         then c1\<lparr>cache_write_miss := Suc (cache_write_miss c1)\<rparr>
         else c1\<lparr>cache_read_miss := Suc (cache_read_miss c1)\<rparr>)"

text \<open>
  \<open>Cache::send\<close> up to the point where the request goes to the next level (lines 113 to
  216). The result is the value returned, the request to forward if the code reaches
  line 217, and the view. The two \<open>assert(req.type == READ)\<close> hold for every request,
  since a request is READ or WRITE.
\<close>

definition send_here ::
  "Latencies \<Rightarrow> Request \<Rightarrow> local_view \<Rightarrow> Fault + (bool \<times> Request option \<times> local_view)" where
  "send_here lat req v =
     (case v of (cs, c, hs, lower) \<Rightarrow>
        let a = Request.addr req;
            idx = get_index c a
        in case get_lines (count_access req c) a of
          (c1, lines) \<Rightarrow>
            (case is_hit c1 lines a of
               (Some pos, True) \<Rightarrow>
                 (let l = \<lparr>addr = a, tag = get_tag c a, lock = False,
                           dirty = (dirty (snd (lines ! pos)) \<or> Request.type req = WRITE)\<rparr>;
                      c2 = push_line idx lines l c1;
                      c3 = put_lines idx (erase pos (lines @ [(next_node c1, l)])) c2
                  in Inr (True, None,
                          (cs\<lparr>hit_list := hit_list cs @
                                 [(CacheSystem.clk cs + latency lat (level c), req)]\<rparr>,
                           c3, hs, lower)))
             | _ \<Rightarrow>
                 (let c2 = count_miss req c1;
                      d = (Request.type req = WRITE);
                      req' = (if Request.type req = WRITE then req\<lparr>Request.type := READ\<rparr> else req)
                  in case hit_mshr c2 (Request.addr req') of
                       Some m \<Rightarrow>
                         (let c3 = c2\<lparr>cache_mshr_hit := Suc (cache_mshr_hit c2)\<rparr>
                          in case update_node (snd (mshr_entries c3 ! m))
                                    (\<lambda>l. l\<lparr>dirty := (d \<or> dirty l)\<rparr>) c3 of
                               None \<Rightarrow> Inl InvalidIterator
                             | Some c4 \<Rightarrow> Inr (True, None, (cs, c4, hs, lower)))
                     | None \<Rightarrow>
                         if length (mshr_entries c2) = mshr_entry_num c2 then
                           Inr (False, None,
                                (cs, c2\<lparr>cache_mshr_unavailable := Suc (cache_mshr_unavailable c2)\<rparr>,
                                 hs, lower))
                         else if all_sets_locked c2 lines then
                           Inr (False, None,
                                (cs, c2\<lparr>cache_set_unavailable := Suc (cache_set_unavailable c2)\<rparr>,
                                 hs, lower))
                         else
                           (case allocate_line lat idx lines (Request.addr req') (cs, c2, hs, lower) of
                              Inl f \<Rightarrow> Inl f
                            | Inr (None, v') \<Rightarrow> Inr (False, None, v')
                            | Inr (Some newline, (cs3, c3, hs3, lower3)) \<Rightarrow>
                                (case update_node newline (\<lambda>l. l\<lparr>dirty := d\<rparr>) c3 of
                                   None \<Rightarrow> Inl InvalidIterator
                                 | Some c4 \<Rightarrow>
                                     Inr (True, Some req',
                                          (cs3,
                                           c4\<lparr>mshr_entries := mshr_entries c4 @
                                                 [(Request.addr req', newline)]\<rparr>,
                                           hs3, lower3)))))))"

text \<open>Moving between a cache and its lower cache.\<close>

fun lower_of :: "frame list \<Rightarrow> Cache option" where
  "lower_of [] = None"
| "lower_of ((lc, ls, rs) # ctx) = Some lc"

fun put_lower :: "Cache option \<Rightarrow> frame list \<Rightarrow> frame list" where
  "put_lower (Some lc') ((lc, ls, rs) # ctx) = (lc', ls, rs) # ctx"
| "put_lower lo ctx = ctx"

text \<open>
  Back from a call on the lower cache to the cache that made the call: it is entry \<open>k\<close>
  of the lower cache's \<open>higher_cache\<close>. The vector never changes its length, so the
  entry is there; \<open>None\<close> would mean it is not.
\<close>

definition refocus :: "nat \<Rightarrow> view \<Rightarrow> view option" where
  "refocus k v =
     (case v of (cs, lc, chs, ctx) \<Rightarrow>
        (case drop k chs of
           [] \<Rightarrow> None
         | Hier c hs # rs \<Rightarrow> Some (cs, c, hs, (lc, take k chs, rs) # ctx)))"

text \<open>
  \<open>Cache::send\<close>. After \<open>send_here\<close>, lines 217 to 227: a cache that is not the last level
  calls \<open>lower_cache->send(req)\<close> and queues the request in its \<open>retry_list\<close> when that
  returns false; the last level appends to \<open>cachesys->wait_list\<close>.
\<close>

fun send :: "Latencies \<Rightarrow> Request \<Rightarrow> view \<Rightarrow> Fault + (bool \<times> view)" where
  "send lat req (cs, c, hs, []) =
     (case send_here lat req (cs, c, hs, None) of
        Inl f \<Rightarrow> Inl f
      | Inr (b, None, (cs1, c1, hs1, lo1)) \<Rightarrow> Inr (b, (cs1, c1, hs1, []))
      | Inr (b, Some req', (cs1, c1, hs1, lo1)) \<Rightarrow>
          if \<not> is_last_level c1 then Inl NullPointer
          else Inr (True,
                    (cs1\<lparr>wait_list := wait_list cs1 @
                           [(CacheSystem.clk cs1 + latency lat (level c1), req')]\<rparr>,
                     c1, hs1, [])))"
| "send lat req (cs, c, hs, (lc, ls, rs) # ctx) =
     (case send_here lat req (cs, c, hs, Some lc) of
        Inl f \<Rightarrow> Inl f
      | Inr (b, None, (cs1, c1, hs1, lo1)) \<Rightarrow>
          Inr (b, (cs1, c1, hs1, put_lower lo1 ((lc, ls, rs) # ctx)))
      | Inr (b, Some req', (cs1, c1, hs1, lo1)) \<Rightarrow>
          if \<not> is_last_level c1 then
            (case lo1 of
               None \<Rightarrow> Inl NullPointer
             | Some lc1 \<Rightarrow>
                 (case send lat req' (cs1, lc1, ls @ Hier c1 hs1 # rs, ctx) of
                    Inl f \<Rightarrow> Inl f
                  | Inr (ok, v2) \<Rightarrow>
                      (case refocus (length ls) v2 of
                         None \<Rightarrow> Inl NotWired
                       | Some (cs2, c2, hs2, ctx2) \<Rightarrow>
                           Inr (True,
                                (cs2,
                                 if \<not> ok then c2\<lparr>retry_list := retry_list c2 @ [req']\<rparr> else c2,
                                 hs2, ctx2)))))
          else Inr (True,
                    (cs1\<lparr>wait_list := wait_list cs1 @
                           [(CacheSystem.clk cs1 + latency lat (level c1), req')]\<rparr>,
                     c1, hs1, put_lower lo1 ((lc, ls, rs) # ctx))))"

section \<open>Cache::tick\<close>

text \<open>\<open>lower_cache->send(req)\<close> as seen from the calling cache.\<close>

definition send_lower :: "Latencies \<Rightarrow> Request \<Rightarrow> view \<Rightarrow> Fault + (bool \<times> view)" where
  "send_lower lat req v =
     (case v of
        (cs, c, hs, []) \<Rightarrow> Inl NullPointer
      | (cs, c, hs, (lc, ls, rs) # ctx) \<Rightarrow>
          (case send lat req (cs, lc, ls @ Hier c hs # rs, ctx) of
             Inl f \<Rightarrow> Inl f
           | Inr (ok, v2) \<Rightarrow>
               (case refocus (length ls) v2 of
                  None \<Rightarrow> Inl NotWired
                | Some v3 \<Rightarrow> Inr (ok, v3))))"

definition erase_retry :: "nat \<Rightarrow> view \<Rightarrow> view" where
  "erase_retry i v =
     (case v of (cs, c, hs, ctx) \<Rightarrow> (cs, c\<lparr>retry_list := erase i (retry_list c)\<rparr>, hs, ctx))"

text \<open>
  The loop \<open>for (it = retry_list.begin(); it != retry_list.end(); it++)\<close> with the body
  \<open>if (lower_cache->send(*it)) it = retry_list.erase(it);\<close>. The iterator \<open>it\<close> is at
  position \<open>i\<close> of \<open>retry_list\<close>, and the list argument holds the elements from \<open>it\<close> to
  the end (a call of the lower cache does not write the \<open>retry_list\<close> of a higher one).
  After an \<open>erase\<close> the iterator already is at the next element, and the \<open>it++\<close> of the
  loop header moves it once more; when \<open>erase\<close> returned \<open>end()\<close>, that increment is
  undefined.
\<close>

fun retry_loop :: "Latencies \<Rightarrow> nat \<Rightarrow> Request list \<Rightarrow> view \<Rightarrow> Fault + view" where
  "retry_loop lat i [] v = Inr v"
| "retry_loop lat i (r # rest) v =
     (case send_lower lat r v of
        Inl f \<Rightarrow> Inl f
      | Inr (ok, v1) \<Rightarrow>
          if ok then
            (case rest of
               [] \<Rightarrow> Inl InvalidIterator
             | r' # rest' \<Rightarrow> retry_loop lat (Suc i) rest' (erase_retry i v1))
          else retry_loop lat (Suc i) rest v1)"

text \<open>\<open>Cache::tick\<close>.\<close>

fun tick :: "Latencies \<Rightarrow> view \<Rightarrow> Fault + view" where
  "tick lat (cs, c, hs, []) = Inl NullPointer"
| "tick lat (cs, c, hs, (lc, ls, rs) # ctx) =
     (case (if \<not> is_last_level lc then
              (case tick lat (cs, lc, ls @ Hier c hs # rs, ctx) of
                 Inl f \<Rightarrow> Inl f
               | Inr v1 \<Rightarrow>
                   (case refocus (length ls) v1 of
                      None \<Rightarrow> Inl NotWired
                    | Some v2 \<Rightarrow> Inr v2))
            else Inr (cs, c, hs, (lc, ls, rs) # ctx)) of
        Inl f \<Rightarrow> Inl f
      | Inr (cs1, c1, hs1, ctx1) \<Rightarrow> retry_loop lat 0 (retry_list c1) (cs1, c1, hs1, ctx1))"

section \<open>The cases of Cache::send\<close>

text \<open>
  The set that \<open>get_lines(addr)\<close> refers to (empty when \<open>get_lines\<close> has to allocate it),
  and the conditions that \<open>send\<close> tests in turn: the hit test, the MSHR lookup, the full
  MSHR table, the locked-out set, and the failed search for a victim in
  \<open>allocate_line\<close>.
\<close>

definition target_set :: "Cache \<Rightarrow> int \<Rightarrow> node list" where
  "target_set c a = (case lines_at c (get_index c a) of None \<Rightarrow> [] | Some ls \<Rightarrow> ls)"

definition hits :: "Cache \<Rightarrow> int \<Rightarrow> bool" where
  "hits c a = snd (is_hit c (target_set c a) a)"

definition merges :: "Cache \<Rightarrow> int \<Rightarrow> bool" where
  "merges c a = (hit_mshr c a \<noteq> None)"

definition mshr_full :: "Cache \<Rightarrow> bool" where
  "mshr_full c = (length (mshr_entries c) = mshr_entry_num c)"

definition no_victim :: "Cache \<Rightarrow> Hierarchy list \<Rightarrow> int \<Rightarrow> bool" where
  "no_victim c hs a =
     (\<not> length (target_set c a) < assoc c \<and> find_if (victim_ok c hs) (target_set c a) = None)"

definition structurally_refused :: "Cache \<Rightarrow> Hierarchy list \<Rightarrow> int \<Rightarrow> bool" where
  "structurally_refused c hs a =
     (\<not> hits c a \<and> \<not> merges c a \<and>
      (mshr_full c \<or> all_sets_locked c (target_set c a) \<or> no_victim c hs a))"

text \<open>The node that a stored iterator points to is still in its list.\<close>

definition node_present :: "line_iter \<Rightarrow> Cache \<Rightarrow> bool" where
  "node_present it c =
     (case lines_at c (fst it) of
        None \<Rightarrow> False
      | Some ls \<Rightarrow> find_if (\<lambda>n. fst n = snd it) ls \<noteq> None)"

text \<open>Two caches that differ at most in their sets, counters and lists of requests.\<close>

definition same_shape :: "Cache \<Rightarrow> Cache \<Rightarrow> bool" where
  "same_shape c c' =
     (mshr_entries c' = mshr_entries c \<and> mshr_entry_num c' = mshr_entry_num c \<and>
      assoc c' = assoc c \<and> level c' = level c \<and> is_first_level c' = is_first_level c \<and>
      is_last_level c' = is_last_level c \<and> block_size c' = block_size c \<and>
      index_mask c' = index_mask c \<and> index_offset c' = index_offset c \<and>
      tag_offset c' = tag_offset c)"

text \<open>Some higher cache reports a dirty copy when \<open>evict\<close> invalidates the address in it.\<close>

definition higher_dirty :: "Latencies \<Rightarrow> int \<Rightarrow> Hierarchy list \<Rightarrow> bool" where
  "higher_dirty lat a hs =
     list_ex (\<lambda>hc. case invalidate lat a hc of Inl f \<Rightarrow> False | Inr (r, hc') \<Rightarrow> snd r) hs"

section \<open>The hierarchy as a whole\<close>

text \<open>
  The whole hierarchy is the last-level cache with everything above it. \<open>root\<close> walks
  from a view down to it, \<open>focus\<close> walks from a view up along positions in the
  \<open>higher_cache\<close> vectors. \<open>send_at\<close> is a call of \<open>send\<close> on the cache at a position,
  \<open>callback_root\<close> a call of \<open>callback\<close> on the last-level cache, and \<open>run\<close> a sequence of
  such calls that stops at the first fault.
\<close>

fun root :: "view \<Rightarrow> CacheSystem \<times> Hierarchy" where
  "root (cs, c, hs, []) = (cs, Hier c hs)"
| "root (cs, c, hs, (lc, ls, rs) # ctx) = root (cs, lc, ls @ Hier c hs # rs, ctx)"

fun focus :: "nat list \<Rightarrow> view \<Rightarrow> view option" where
  "focus [] v = Some v"
| "focus (k # ks) v = (case refocus k v of None \<Rightarrow> None | Some v' \<Rightarrow> focus ks v')"

definition send_at ::
  "Latencies \<Rightarrow> nat list \<Rightarrow> Request \<Rightarrow> CacheSystem \<times> Hierarchy \<Rightarrow> Fault + (CacheSystem \<times> Hierarchy)" where
  "send_at lat p req s =
     (case s of (cs, Hier c hs) \<Rightarrow>
        (case focus p (cs, c, hs, []) of
           None \<Rightarrow> Inl NotWired
         | Some v \<Rightarrow>
             (case send lat req v of
                Inl f \<Rightarrow> Inl f
              | Inr (b, v') \<Rightarrow> Inr (root v'))))"

definition callback_root ::
  "Request \<Rightarrow> CacheSystem \<times> Hierarchy \<Rightarrow> Fault + (CacheSystem \<times> Hierarchy)" where
  "callback_root req s =
     (case s of (cs, h) \<Rightarrow>
        (case callback req h of Inl f \<Rightarrow> Inl f | Inr h' \<Rightarrow> Inr (cs, h')))"

fun run :: "('s \<Rightarrow> Fault + 's) list \<Rightarrow> 's \<Rightarrow> Fault + 's" where
  "run [] s = Inr s"
| "run (f # fs) s = (case f s of Inl e \<Rightarrow> Inl e | Inr s' \<Rightarrow> run fs s')"

section \<open>The wiring\<close>

text \<open>
  The wiring of a hierarchy is its shape: how many higher caches each cache has. No
  function of the cache changes it (\<open>concatlower\<close> runs before the first request), and
  this is what makes the way back from a call on the lower cache well defined.
\<close>

datatype Wiring = Wired "Wiring list"

fun wiring :: "Hierarchy \<Rightarrow> Wiring" where
  "wiring (Hier c hs) = Wired (map wiring hs)"

definition view_wiring :: "view \<Rightarrow> Wiring list \<times> (Wiring list \<times> Wiring list) list" where
  "view_wiring v =
     (case v of (cs, c, hs, ctx) \<Rightarrow>
        (map wiring hs, map (\<lambda>fr. (map wiring (fst (snd fr)), map wiring (snd (snd fr)))) ctx))"

section \<open>Concrete inputs\<close>

text \<open>
  Scenario 6 of the spec: A (ready, row hit, arrive 10), B (ready, row hit, arrive 5),
  C (ready, no row hit, arrive 1). Scenario 7: X (row hit, arrive 20) and Y (row miss on
  the open bank of X, arrive 1), no bank ready.
\<close>

definition mk_req :: "int \<Rightarrow> int \<Rightarrow> int list \<Rightarrow> Request" where
  "mk_req a t v = \<lparr>Request.addr = a, type = READ, coreid = 0, arrive = t, addr_vec = v\<rparr>"

definition ctrl_scenario6 :: "unit Controller" where
  "ctrl_scenario6 =
     \<lparr>is_ready = (\<lambda>r. True), is_row_hit = (\<lambda>r. Request.addr r \<noteq> 3), is_row_open = (\<lambda>r. True),
      scope_PRE = 0, is_ready_cmd = (\<lambda>c k. True), clk = 100, table = []\<rparr>"

definition queue_scenario6 :: "Request list" where
  "queue_scenario6 = [mk_req 1 10 [0, 7], mk_req 2 5 [0, 7], mk_req 3 1 [0, 8]]"



text \<open>A row table with three open rows at clock 100; the bank \<open>[0, 2]\<close> is not ready.\<close>

definition ctrl_timeout :: "unit Controller" where
  "ctrl_timeout =
     \<lparr>is_ready = (\<lambda>r. True), is_row_hit = (\<lambda>r. True), is_row_open = (\<lambda>r. True),
      scope_PRE = 0, is_ready_cmd = (\<lambda>c k. k \<noteq> [0, 2]), clk = 100,
      table = [([0, 0], \<lparr>row = 7, hits = 1, timestamp = 80\<rparr>),
               ([0, 1], \<lparr>row = 3, hits = 0, timestamp = 10\<rparr>),
               ([0, 2], \<lparr>row = 4, hits = 0, timestamp = 20\<rparr>)]\<rparr>"

text \<open>
  A row table whose only entry carries a time stamp near the least \<open>long\<close>: the
  difference to the clock does not fit 64 bits.
\<close>

definition ctrl_overflow :: "unit Controller" where
  "ctrl_overflow =
     \<lparr>is_ready = (\<lambda>r. True), is_row_hit = (\<lambda>r. True), is_row_open = (\<lambda>r. True),
      scope_PRE = 0, is_ready_cmd = (\<lambda>c k. True), clk = 100,
      table = [([0, 0], \<lparr>row = 7, hits = 1, timestamp = - (2 ^ 63) + 50\<rparr>)]\<rparr>"


text \<open>
  A cache as the constructor leaves it: no sets, no MSHR entries, all counters 0. The
  arguments are the level, \<open>is_first_level\<close>, \<open>is_last_level\<close>, \<open>assoc\<close>, \<open>block_size\<close>,
  \<open>mshr_entry_num\<close> and the derived \<open>index_mask\<close>, \<open>index_offset\<close> and \<open>tag_offset\<close>.
\<close>

definition Cache_empty ::
  "CacheLevel \<Rightarrow> bool \<Rightarrow> bool \<Rightarrow> nat \<Rightarrow> int \<Rightarrow> nat \<Rightarrow> int \<Rightarrow> nat \<Rightarrow> nat \<Rightarrow> Cache" where
  "Cache_empty lv first_lv last_lv asc bs mshr imask ioff toff =
     \<lparr>level = lv, is_first_level = first_lv, is_last_level = last_lv, assoc = asc,
      block_size = bs, mshr_entry_num = mshr, index_mask = imask, index_offset = ioff,
      tag_offset = toff, cache_lines = [], mshr_entries = [], retry_list = [], next_node = 0,
      cache_read_miss = 0, cache_write_miss = 0, cache_total_miss = 0, cache_eviction = 0,
      cache_read_access = 0, cache_write_access = 0, cache_total_access = 0,
      cache_mshr_hit = 0, cache_mshr_unavailable = 0, cache_set_unavailable = 0\<rparr>"

text \<open>
  The geometry of the spec's scenarios (\<open>block_size = 64\<close>, \<open>assoc = 8\<close>, 64 sets, 16
  MSHR entries) for the one cache of this repository, an L3 that is first and last
  level, with \<open>latency = [4, 12, 40]\<close> and \<open>latency_each = [4, 8, 28]\<close>.
\<close>

definition lat_example :: Latencies where
  "lat_example =
     \<lparr>latency = (\<lambda>l. case l of L1 \<Rightarrow> 4 | L2 \<Rightarrow> 12 | L3 \<Rightarrow> 40),
      latency_each = (\<lambda>l. case l of L1 \<Rightarrow> 4 | L2 \<Rightarrow> 8 | L3 \<Rightarrow> 28)\<rparr>"

definition cs_example :: CacheSystem where
  "cs_example = \<lparr>clk = 100, wait_list = [], hit_list = []\<rparr>"

definition cache_L3 :: Cache where
  "cache_L3 = Cache_empty L3 True True 8 64 16 63 6 12"

text \<open>The L3 holding the block of address 0, dirty and unlocked, in set 0.\<close>

definition cache_L3_resident :: Cache where
  "cache_L3_resident =
     cache_L3\<lparr>cache_lines := [(0, [(0, \<lparr>addr = 0, tag = 0, lock = False, dirty = True\<rparr>)])],
              next_node := 1\<rparr>"

text \<open>The L3 after a read miss on address 0: a locked line and its MSHR entry.\<close>

definition cache_L3_miss :: Cache where
  "cache_L3_miss =
     cache_L3\<lparr>cache_lines := [(0, [(0, Line_new 0 0)])], mshr_entries := [(0, (0, 0))],
              next_node := 1\<rparr>"

text \<open>A direct-mapped L2 with one set above an L3, holding the clean block 0.\<close>

definition cache_L2_resident :: Cache where
  "cache_L2_resident =
     (Cache_empty L2 True False 1 64 4 0 6 6)
       \<lparr>cache_lines := [(0, [(0, \<lparr>addr = 0, tag = 0, lock = False, dirty = False\<rparr>)])],
        next_node := 1\<rparr>"

text \<open>The same L2 with block 0 dirty.\<close>

definition cache_L2_dirty :: Cache where
  "cache_L2_dirty =
     (Cache_empty L2 True False 1 64 4 0 6 6)
       \<lparr>cache_lines := [(0, [(0, \<lparr>addr = 0, tag = 0, lock = False, dirty = True\<rparr>)])],
        next_node := 1\<rparr>"

text \<open>
  An L1 with an outstanding miss on block 0, and below it an L2 (not the first level)
  that holds block 0 unlocked in its only line.
\<close>

definition cache_L1_miss :: Cache where
  "cache_L1_miss =
     (Cache_empty L1 True False 1 64 4 0 6 6)
       \<lparr>cache_lines := [(0, [(0, Line_new 0 0)])], mshr_entries := [(0, (0, 0))],
        next_node := 1\<rparr>"

definition cache_L2_below :: Cache where
  "cache_L2_below = cache_L2_resident\<lparr>is_first_level := False\<rparr>"

text \<open>
  An empty direct-mapped L2 above the empty L3, with two reads (blocks 0 and 64) or one
  read waiting in its \<open>retry_list\<close>.
\<close>

definition cache_L2_retry :: Cache where
  "cache_L2_retry =
     (Cache_empty L2 True False 1 64 4 0 6 6)
       \<lparr>retry_list := [Request_new 0 READ, Request_new 64 READ]\<rparr>"

definition cache_L2_retry_one :: Cache where
  "cache_L2_retry_one =
     (Cache_empty L2 True False 1 64 4 0 6 6)\<lparr>retry_list := [Request_new 0 READ]\<rparr>"

text \<open>
  The empty direct-mapped L2, and the L3 as the level below it: empty, or with the read
  miss on address 0 outstanding and room for no other MSHR entry.
\<close>

definition cache_L2_empty :: Cache where
  "cache_L2_empty = Cache_empty L2 True False 1 64 4 0 6 6"

definition cache_L3_below :: Cache where
  "cache_L3_below = cache_L3\<lparr>is_first_level := False\<rparr>"

definition cache_L3_below_full :: Cache where
  "cache_L3_below_full = cache_L3_miss\<lparr>is_first_level := False, mshr_entry_num := 1\<rparr>"

text \<open>
  Three levels, all empty, one set each: two direct-mapped L1 caches above a two-way L2
  above a two-way L3.
\<close>

definition hierarchy_three :: Hierarchy where
  "hierarchy_three =
     Hier (Cache_empty L3 False True 2 64 4 0 6 6)
       [Hier (Cache_empty L2 False False 2 64 4 0 6 6)
          [Hier (Cache_empty L1 True False 1 64 4 0 6 6) [],
           Hier (Cache_empty L1 True False 1 64 4 0 6 6) []]]"

text \<open>
  A one-way L3 that holds block 0 below the L2 that holds block 0 dirty, and the wait
  list that a read miss on address 4096 leaves at clock 100, one cycle before the read
  is due: the eviction of block 0 queues the write-back for clock 176 first (the
  invalidation in the L2 takes 36 cycles), and \<open>send\<close> queues the read for clock 140
  behind it.
\<close>

definition cache_L3_one_way :: Cache where
  "cache_L3_one_way = cache_L3_resident\<lparr>is_first_level := False, assoc := 1\<rparr>"

definition cs_unsorted :: CacheSystem where
  "cs_unsorted =
     \<lparr>clk = 139,
      wait_list = [(176, Request_new 0 WRITE), (140, Request_new 4096 READ)],
      hit_list = []\<rparr>"

section \<open>Scheduler: the FRFCFS scan\<close>

lemma compare_FRFCFS_cases:
  "compare ctrl FRFCFS q g m =
     (if ready_hit ctrl (q ! g) \<and> \<not> ready_hit ctrl (q ! m) then g
      else if \<not> ready_hit ctrl (q ! g) \<and> ready_hit ctrl (q ! m) then m
      else if arrive (q ! g) \<le> arrive (q ! m) then g else m)"
  by (auto simp: ready_hit_def Let_def)

lemma best_upto_step:
  assumes "best_upto ctrl q m g"
  shows "best_upto ctrl q (Suc m) (compare ctrl FRFCFS q g m)"
proof -
  have g: "g < m" using assms by (simp add: best_upto_def)
  show ?thesis
  proof (cases "\<exists>i<m. ready_hit ctrl (q ! i)")
    case True
    then have G: "ready_hit ctrl (q ! g)"
      "\<forall>i<m. ready_hit ctrl (q ! i) \<longrightarrow> arrive (q ! g) \<le> arrive (q ! i)"
      "\<forall>i<g. ready_hit ctrl (q ! i) \<longrightarrow> arrive (q ! g) < arrive (q ! i)"
      using assms unfolding best_upto_def by blast+
    show ?thesis
    proof (cases "ready_hit ctrl (q ! m) \<and> \<not> arrive (q ! g) \<le> arrive (q ! m)")
      case True
      then have c: "compare ctrl FRFCFS q g m = m"
        using G(1) by (simp add: compare_FRFCFS_cases del: compare.simps)
      have "\<forall>i<Suc m. ready_hit ctrl (q ! i) \<longrightarrow> arrive (q ! m) \<le> arrive (q ! i)"
        using True G(2) by (auto simp: less_Suc_eq)
      moreover have "\<forall>i<m. ready_hit ctrl (q ! i) \<longrightarrow> arrive (q ! m) < arrive (q ! i)"
        using True G(2) by (metis le_less_linear less_le_trans)
      ultimately show ?thesis using True unfolding c best_upto_def by simp
    next
      case False
      then have c: "compare ctrl FRFCFS q g m = g"
        using G(1) by (auto simp: compare_FRFCFS_cases simp del: compare.simps)
      have "\<forall>i<Suc m. ready_hit ctrl (q ! i) \<longrightarrow> arrive (q ! g) \<le> arrive (q ! i)"
        using False G(2) by (auto simp: less_Suc_eq)
      then show ?thesis using G g unfolding c best_upto_def by simp
    qed
  next
    case False
    then have ng: "\<not> ready_hit ctrl (q ! g)" using g by blast
    show ?thesis
    proof (cases "ready_hit ctrl (q ! m)")
      case True
      then have c: "compare ctrl FRFCFS q g m = m"
        using ng by (simp add: compare_FRFCFS_cases del: compare.simps)
      show ?thesis using True False unfolding c best_upto_def by (auto simp: less_Suc_eq)
    next
      case nm: False
      have lt: "compare ctrl FRFCFS q g m < Suc m"
        using g by (simp add: compare_FRFCFS_cases del: compare.simps)
      have "\<not> (\<exists>i<Suc m. ready_hit ctrl (q ! i))" using False nm by (auto simp: less_Suc_eq)
      then show ?thesis using lt unfolding best_upto_def by blast
    qed
  qed
qed

lemma best_upto_fold:
  "best_upto ctrl q a h \<Longrightarrow>
   best_upto ctrl q (a + k) (foldl (compare ctrl FRFCFS q) h [a ..< a + k])"
proof (induction k)
  case 0
  then show ?case by simp
next
  case (Suc k)
  then show ?case using best_upto_step[of ctrl q "a + k"] by simp
qed

lemma best_upto_scan:
  assumes "q \<noteq> []"
  shows "best_upto ctrl q (length q) (scan ctrl FRFCFS q)"
proof -
  have "best_upto ctrl q 1 0" by (simp add: best_upto_def)
  from best_upto_fold[OF this, of "length q - 1"] assms show ?thesis
    by (simp add: scan_def)
qed

lemma upt_small: "[1..<3] = [1, 2]" "[1..<2] = [1]" "[0..<2] = [0, 1]"
  by (simp_all add: upt_rec)

text \<open>
  Claim C2. Under FRFCFS, if some request of the queue is both ready and a row hit, then
  \<open>get_head\<close> returns a position \<open>h\<close> of the queue whose request is ready and a row hit,
  no ready row hit of the queue arrived earlier than it, and every ready row hit scanned
  before \<open>h\<close> arrived strictly later (ties go to the element scanned first).
\<close>

theorem get_head_FRFCFS_priority:
  assumes "\<exists>i<length q. is_ready ctrl (q ! i) \<and> is_row_hit ctrl (q ! i)"
  shows "\<exists>h. get_head ctrl FRFCFS q = Some h \<and> h < length q \<and>
           is_ready ctrl (q ! h) \<and> is_row_hit ctrl (q ! h) \<and>
           (\<forall>i<length q. is_ready ctrl (q ! i) \<and> is_row_hit ctrl (q ! i) \<longrightarrow>
                          arrive (q ! h) \<le> arrive (q ! i)) \<and>
           (\<forall>i<h. is_ready ctrl (q ! i) \<and> is_row_hit ctrl (q ! i) \<longrightarrow>
                   arrive (q ! h) < arrive (q ! i))"
proof -
  from assms have ne: "q \<noteq> []" by auto
  from assms have ex: "\<exists>i<length q. ready_hit ctrl (q ! i)" by (simp add: ready_hit_def)
  from best_upto_scan[OF ne, of ctrl] ex
  have B: "scan ctrl FRFCFS q < length q" "ready_hit ctrl (q ! scan ctrl FRFCFS q)"
    "\<forall>i<length q. ready_hit ctrl (q ! i) \<longrightarrow> arrive (q ! scan ctrl FRFCFS q) \<le> arrive (q ! i)"
    "\<forall>i < scan ctrl FRFCFS q. ready_hit ctrl (q ! i) \<longrightarrow>
       arrive (q ! scan ctrl FRFCFS q) < arrive (q ! i)"
    unfolding best_upto_def by blast+
  have "get_head ctrl FRFCFS q = Some (scan ctrl FRFCFS q)"
    using ne B(2) by (simp add: get_head_def ready_hit_def)
  then show ?thesis using B by (simp add: ready_hit_def)
qed

theorem get_head_FRFCFS_priority_witness:
  "(\<exists>i<length queue_scenario6.
      is_ready ctrl_scenario6 (queue_scenario6 ! i) \<and> is_row_hit ctrl_scenario6 (queue_scenario6 ! i)) \<and>
   get_head ctrl_scenario6 FRFCFS queue_scenario6 = Some 1 \<and>
   arrive (queue_scenario6 ! 1) = 5"
proof -
  have h: "\<exists>i<length queue_scenario6.
      is_ready ctrl_scenario6 (queue_scenario6 ! i) \<and> is_row_hit ctrl_scenario6 (queue_scenario6 ! i)"
    by (rule exI[of _ 0]) (simp add: queue_scenario6_def ctrl_scenario6_def mk_req_def)
  have v: "get_head ctrl_scenario6 FRFCFS queue_scenario6 = Some 1"
    by (simp add: get_head_def scan_def queue_scenario6_def ctrl_scenario6_def mk_req_def upt_small)
  have a: "arrive (queue_scenario6 ! 1) = 5" by (simp add: queue_scenario6_def mk_req_def)
  from get_head_FRFCFS_priority[OF h] h v a show ?thesis by simp
qed

section \<open>Scheduler: BLISS and Custom\<close>



section \<open>RowPolicy\<close>

lemma policy_Closed_result:
  "policy_Closed ctrl cmd tbl = [] \<or>
   (policy_Closed ctrl cmd tbl \<in> fst ` set tbl \<and>
    is_ready_cmd ctrl cmd (policy_Closed ctrl cmd tbl))"
  by (induction tbl) auto

lemma policy_Timeout_result:
  "policy_Timeout ctrl tmo cmd tbl = [] \<or>
   (policy_Timeout ctrl tmo cmd tbl \<in> fst ` set tbl \<and>
    is_ready_cmd ctrl cmd (policy_Timeout ctrl tmo cmd tbl))"
  by (induction tbl) auto

lemma long_sub_exact:
  assumes "- (2 ^ 63) \<le> a - b" and "a - b < 2 ^ 63"
  shows "long_sub a b = a - b"
proof -
  have "(word_of_int a - word_of_int b :: 64 word) = word_of_int (a - b)" by simp
  then have "long_sub a b = sint (word_of_int (a - b) :: 64 word)"
    by (simp only: long_sub_def)
  also have "\<dots> = signed_take_bit 63 (a - b)"
    by (simp only: sint_sbintrunc') simp
  also have "\<dots> = a - b" using assms by (simp add: signed_take_bit_int_eq_self)
  finally show ?thesis .
qed

lemma policy_Timeout_none:
  "\<forall>kv \<in> set tbl. \<not> expired_ready_long ctrl rp cmd kv \<Longrightarrow>
   policy_Timeout ctrl (timeout rp) cmd tbl = []"
  by (induction tbl) (auto simp: expired_ready_long_def)

lemma policy_Timeout_first:
  "i < length tbl \<Longrightarrow> expired_ready_long ctrl rp cmd (tbl ! i) \<Longrightarrow>
   \<forall>j<i. \<not> expired_ready_long ctrl rp cmd (tbl ! j) \<Longrightarrow>
   policy_Timeout ctrl (timeout rp) cmd tbl = fst (tbl ! i)"
proof (induction tbl arbitrary: i)
  case Nil
  then show ?case by simp
next
  case (Cons kv rest)
  show ?case
  proof (cases i)
    case 0
    then show ?thesis using Cons.prems by (auto simp: expired_ready_long_def)
  next
    case (Suc k)
    have "\<not> expired_ready_long ctrl rp cmd kv" using Cons.prems(3) Suc by auto
    moreover have "\<forall>j<k. \<not> expired_ready_long ctrl rp cmd (rest ! j)"
      using Cons.prems(3) Suc by (metis Suc_less_eq nth_Cons_Suc)
    then have "policy_Timeout ctrl (timeout rp) cmd rest = fst (rest ! k)"
      using Cons.IH[of k] Cons.prems Suc by auto
    ultimately show ?thesis using Suc by (auto simp: expired_ready_long_def)
  qed
qed

text \<open>
  Claim C9. \<open>get_victim\<close> returns the empty vector or a key of the row table for which
  \<open>is_ready(cmd, key)\<close> holds; under Opened it returns the empty vector; under Timeout it
  returns the key of the first entry of the table that is timed out and ready, and the
  empty vector when the table has no such entry; a new \<open>RowPolicy\<close> has \<open>timeout = 50\<close>.
  Timed out is the test \<open>clk - timestamp \<ge> timeout\<close> on the 64-bit difference; for every
  entry whose difference fits a \<open>long\<close> it is \<open>clk - timestamp \<ge> timeout\<close> over the
  integers.
\<close>

theorem get_victim_valid:
  "(get_victim ctrl rp cmd = [] \<or>
      (get_victim ctrl rp cmd \<in> fst ` set (table ctrl) \<and>
       is_ready_cmd ctrl cmd (get_victim ctrl rp cmd))) \<and>
   (RowPolicy.type rp = Opened \<longrightarrow> get_victim ctrl rp cmd = []) \<and>
   (RowPolicy.type rp = Timeout \<longrightarrow>
      (\<forall>i<length (table ctrl).
         expired_ready_long ctrl rp cmd (table ctrl ! i) \<and>
         (\<forall>j<i. \<not> expired_ready_long ctrl rp cmd (table ctrl ! j)) \<longrightarrow>
         get_victim ctrl rp cmd = fst (table ctrl ! i)) \<and>
      ((\<forall>i<length (table ctrl). \<not> expired_ready_long ctrl rp cmd (table ctrl ! i)) \<longrightarrow>
         get_victim ctrl rp cmd = [])) \<and>
   (\<forall>kv. in_long_range ctrl kv \<longrightarrow>
      expired_ready_long ctrl rp cmd kv = expired_ready ctrl rp cmd kv) \<and>
   timeout RowPolicy_new = 50"
proof -
  have 1: "get_victim ctrl rp cmd = [] \<or>
      (get_victim ctrl rp cmd \<in> fst ` set (table ctrl) \<and>
       is_ready_cmd ctrl cmd (get_victim ctrl rp cmd))"
    using policy_Closed_result[of ctrl cmd "table ctrl"]
          policy_Timeout_result[of ctrl "timeout rp" cmd "table ctrl"]
    by (cases "RowPolicy.type rp") (simp_all add: get_victim_def)
  have 2: "RowPolicy.type rp = Opened \<longrightarrow> get_victim ctrl rp cmd = []"
    by (simp add: get_victim_def)
  have 3: "RowPolicy.type rp = Timeout \<longrightarrow>
      (\<forall>i<length (table ctrl).
         expired_ready_long ctrl rp cmd (table ctrl ! i) \<and>
         (\<forall>j<i. \<not> expired_ready_long ctrl rp cmd (table ctrl ! j)) \<longrightarrow>
         get_victim ctrl rp cmd = fst (table ctrl ! i))"
    using policy_Timeout_first[of _ "table ctrl" ctrl rp cmd]
    by (simp add: get_victim_def)
  have 4: "RowPolicy.type rp = Timeout \<longrightarrow>
      ((\<forall>i<length (table ctrl). \<not> expired_ready_long ctrl rp cmd (table ctrl ! i)) \<longrightarrow>
         get_victim ctrl rp cmd = [])"
    using policy_Timeout_none[of "table ctrl" ctrl rp cmd]
    by (auto simp: get_victim_def all_set_conv_all_nth)
  have 5: "timeout RowPolicy_new = 50" by (simp add: RowPolicy_new_def)
  have 6: "\<forall>kv. in_long_range ctrl kv \<longrightarrow>
      expired_ready_long ctrl rp cmd kv = expired_ready ctrl rp cmd kv"
    by (simp add: in_long_range_def expired_ready_long_def expired_ready_def long_sub_exact)
  from 1 2 3 4 5 6 show ?thesis by blast
qed

text \<open>
  At clock 100 with time stamps 80, 10 and 20 the policy returns the second bank. With
  the time stamp \<open>-2^63 + 50\<close> the 64-bit difference is negative and the entry is not
  timed out, although \<open>clk - timestamp\<close> over the integers exceeds the timeout.
\<close>

theorem get_victim_valid_witness:
  "get_victim ctrl_timeout RowPolicy_new () = [0, 1] \<and>
   [0, 1] \<in> fst ` set (table ctrl_timeout) \<and> is_ready_cmd ctrl_timeout () [0, 1] \<and>
   get_victim ctrl_timeout (RowPolicy_new\<lparr>type := Opened\<rparr>) () = [] \<and>
   get_victim ctrl_timeout (RowPolicy_new\<lparr>type := Closed\<rparr>) () = [0, 0] \<and>
   in_long_range ctrl_timeout (table ctrl_timeout ! 1) \<and>
   expired_ready ctrl_timeout RowPolicy_new () (table ctrl_timeout ! 1) \<and>
   \<not> expired_ready ctrl_timeout RowPolicy_new () (table ctrl_timeout ! 0) \<and>
   get_victim ctrl_overflow RowPolicy_new () = [] \<and>
   expired_ready ctrl_overflow RowPolicy_new () (table ctrl_overflow ! 0)"
proof -
  have r: "in_long_range ctrl_timeout (table ctrl_timeout ! 0)"
    "in_long_range ctrl_timeout (table ctrl_timeout ! 1)"
    by (simp_all add: in_long_range_def ctrl_timeout_def)
  have e: "expired_ready ctrl_timeout RowPolicy_new () (table ctrl_timeout ! 1)"
    "\<not> expired_ready ctrl_timeout RowPolicy_new () (table ctrl_timeout ! 0)"
    by (simp_all add: expired_ready_def ctrl_timeout_def RowPolicy_new_def)
  note T = get_victim_valid[of ctrl_timeout RowPolicy_new "()"]
  from T r e have el: "expired_ready_long ctrl_timeout RowPolicy_new () (table ctrl_timeout ! 1)"
    "\<not> expired_ready_long ctrl_timeout RowPolicy_new () (table ctrl_timeout ! 0)"
    by blast+
  have ty: "RowPolicy.type RowPolicy_new = Timeout" "length (table ctrl_timeout) = 3"
    by (simp_all add: RowPolicy_new_def ctrl_timeout_def)
  have "get_victim ctrl_timeout RowPolicy_new () = fst (table ctrl_timeout ! 1)"
    using T[THEN conjunct2, THEN conjunct2, THEN conjunct1, rule_format, OF ty(1),
            THEN conjunct1, rule_format, of 1] el ty(2)
    by (simp add: less_Suc_eq)
  then have a: "get_victim ctrl_timeout RowPolicy_new () = [0, 1]"
    by (simp add: ctrl_timeout_def)
  have b: "[0, 1] \<in> fst ` set (table ctrl_timeout)" "is_ready_cmd ctrl_timeout () [0, 1]"
    by (simp_all add: ctrl_timeout_def)
  have c: "get_victim ctrl_timeout (RowPolicy_new\<lparr>type := Opened\<rparr>) () = []"
    using get_victim_valid[of ctrl_timeout "RowPolicy_new\<lparr>type := Opened\<rparr>" "()"] by simp
  have d: "get_victim ctrl_timeout (RowPolicy_new\<lparr>type := Closed\<rparr>) () = [0, 0]"
    by (simp add: get_victim_def ctrl_timeout_def)
  have o: "long_sub 100 (- (2 ^ 63) + 50) = - (2 ^ 63) + 50" by code_simp
  have f: "get_victim ctrl_overflow RowPolicy_new () = []"
    using o by (simp add: get_victim_def ctrl_overflow_def RowPolicy_new_def)
  have g: "expired_ready ctrl_overflow RowPolicy_new () (table ctrl_overflow ! 0)"
    by (simp add: expired_ready_def ctrl_overflow_def RowPolicy_new_def)
  from a b c d r(2) e f g show ?thesis by blast
qed

section \<open>CacheSystem::tick\<close>

lemma drain_hit_list_eq:
  "drain_hit_list cb now hl env =
     (filter (\<lambda>x. \<not> now \<ge> fst x) hl, fold cb (map snd (filter (\<lambda>x. now \<ge> fst x) hl)) env)"
  by (induction hl arbitrary: env) auto

lemma drain_wait_list_ready:
  "\<forall>x \<in> set pre. now \<ge> fst x \<Longrightarrow> (post = [] \<or> \<not> now \<ge> fst (hd post)) \<Longrightarrow>
   drain_wait_list sm now (pre @ post) env =
     (refused pre (fst (attempts sm (map snd pre) env)) @ post,
      snd (attempts sm (map snd pre) env))"
proof (induction pre arbitrary: env)
  case Nil
  then show ?case by (cases post) (auto simp: refused_def)
next
  case (Cons x pre)
  then show ?case by (auto simp: refused_def split: prod.splits)
qed

lemma drain_wait_list_eq:
  "drain_wait_list sm now wl env =
     (let pre = takeWhile (\<lambda>x. now \<ge> fst x) wl; post = dropWhile (\<lambda>x. now \<ge> fst x) wl
      in (refused pre (fst (attempts sm (map snd pre) env)) @ post,
          snd (attempts sm (map snd pre) env)))"
proof -
  let ?pre = "takeWhile (\<lambda>x. now \<ge> fst x) wl" and ?post = "dropWhile (\<lambda>x. now \<ge> fst x) wl"
  have a: "\<forall>x \<in> set ?pre. now \<ge> fst x" by (auto dest: set_takeWhileD)
  have b: "?post = [] \<or> \<not> now \<ge> fst (hd ?post)"
    using hd_dropWhile[of "\<lambda>x. now \<ge> fst x" wl] by blast
  from drain_wait_list_ready[OF a b, of sm env] show ?thesis by (simp add: Let_def)
qed

text \<open>
  Claim C6, as the code has it. A call of \<open>CacheSystem::tick\<close> increments \<open>clk\<close> by one.
  With the new clock it tries \<open>send_memory\<close>, in order, on the entries of \<open>wait_list\<close>
  that come before the first entry whose ready time is still ahead, removes those on
  which \<open>send_memory\<close> succeeds and keeps the refused ones in place; the first entry not
  yet ready and everything behind it stay untouched. After that it invokes, in insertion
  order, the callback of every \<open>hit_list\<close> entry whose ready time has come and removes
  these entries.
\<close>

theorem CacheSystem_tick_spec:
  "CacheSystem_tick send_memory complete (cs, env) =
     (let now = CacheSystem.clk cs + 1;
          pre = takeWhile (\<lambda>x. fst x \<le> now) (wait_list cs);
          post = dropWhile (\<lambda>x. fst x \<le> now) (wait_list cs);
          tried = attempts send_memory (map snd pre) env
      in (cs\<lparr>clk := now,
              wait_list := refused pre (fst tried) @ post,
              hit_list := filter (\<lambda>x. \<not> fst x \<le> now) (hit_list cs)\<rparr>,
          fold complete (map snd (filter (\<lambda>x. fst x \<le> now) (hit_list cs))) (snd tried)))"
  by (simp add: CacheSystem_tick_def drain_wait_list_eq drain_hit_list_eq Let_def)

text \<open>
  With a memory that accepts every request, the tick from clock 139 to clock 140 leaves
  the read that is due at clock 140 in \<open>wait_list\<close>: the entry before it is due at 176.
\<close>

theorem CacheSystem_tick_stops_at_unready:
  "CacheSystem.clk (fst (CacheSystem_tick (\<lambda>r e. (True, e)) (\<lambda>r e. e) (cs_unsorted, ()))) = 140 \<and>
   wait_list (fst (CacheSystem_tick (\<lambda>r e. (True, e)) (\<lambda>r e. e) (cs_unsorted, ()))) =
     wait_list cs_unsorted \<and>
   wait_list cs_unsorted ! 1 = (140, Request_new 4096 READ)"
  by (simp add: CacheSystem_tick_def cs_unsorted_def)

section \<open>Lists, sets and shapes\<close>

lemma find_if_None_iff: "find_if P xs = None \<longleftrightarrow> (\<forall>x \<in> set xs. \<not> P x)"
  by (induction xs) auto

lemma find_if_Some_iff:
  "find_if P xs = Some i \<longleftrightarrow> (i < length xs \<and> P (xs ! i) \<and> (\<forall>k<i. \<not> P (xs ! k)))"
proof (induction xs arbitrary: i)
  case Nil
  then show ?case by simp
next
  case (Cons x xs)
  show ?case
  proof (cases "P x")
    case True
    then show ?thesis by (cases i) auto
  next
    case False
    show ?thesis
    proof (cases i)
      case 0
      then show ?thesis using False by auto
    next
      case (Suc j)
      have "(\<forall>k<Suc j. \<not> P ((x # xs) ! k)) \<longleftrightarrow> (\<forall>k<j. \<not> P (xs ! k))"
        using False by (auto simp: less_Suc_eq_0_disj)
      then show ?thesis using False Suc Cons.IH[of j] by auto
    qed
  qed
qed

lemma lines_at_put_lines [simp]:
  "lines_at (put_lines idx ls c) j = (if j = idx then Some ls else lines_at c j)"
  by (simp add: lines_at_def put_lines_def update_conv')

lemma count_access_fields [simp]:
  "cache_lines (count_access req c) = cache_lines c"
  "mshr_entries (count_access req c) = mshr_entries c"
  "mshr_entry_num (count_access req c) = mshr_entry_num c"
  "assoc (count_access req c) = assoc c"
  "level (count_access req c) = level c"
  "is_first_level (count_access req c) = is_first_level c"
  "is_last_level (count_access req c) = is_last_level c"
  "block_size (count_access req c) = block_size c"
  "index_mask (count_access req c) = index_mask c"
  "index_offset (count_access req c) = index_offset c"
  "tag_offset (count_access req c) = tag_offset c"
  "next_node (count_access req c) = next_node c"
  "cache_mshr_unavailable (count_access req c) = cache_mshr_unavailable c"
  "cache_set_unavailable (count_access req c) = cache_set_unavailable c"
  by (simp_all add: count_access_def Let_def)

lemma count_miss_fields [simp]:
  "cache_lines (count_miss req c) = cache_lines c"
  "mshr_entries (count_miss req c) = mshr_entries c"
  "mshr_entry_num (count_miss req c) = mshr_entry_num c"
  "assoc (count_miss req c) = assoc c"
  "level (count_miss req c) = level c"
  "is_first_level (count_miss req c) = is_first_level c"
  "is_last_level (count_miss req c) = is_last_level c"
  "block_size (count_miss req c) = block_size c"
  "index_mask (count_miss req c) = index_mask c"
  "index_offset (count_miss req c) = index_offset c"
  "tag_offset (count_miss req c) = tag_offset c"
  "next_node (count_miss req c) = next_node c"
  "cache_mshr_unavailable (count_miss req c) = cache_mshr_unavailable c"
  "cache_set_unavailable (count_miss req c) = cache_set_unavailable c"
  by (simp_all add: count_miss_def Let_def)

lemma put_lines_fields [simp]:
  "mshr_entries (put_lines idx ls c) = mshr_entries c"
  "mshr_entry_num (put_lines idx ls c) = mshr_entry_num c"
  "assoc (put_lines idx ls c) = assoc c"
  "level (put_lines idx ls c) = level c"
  "is_first_level (put_lines idx ls c) = is_first_level c"
  "is_last_level (put_lines idx ls c) = is_last_level c"
  "block_size (put_lines idx ls c) = block_size c"
  "index_mask (put_lines idx ls c) = index_mask c"
  "index_offset (put_lines idx ls c) = index_offset c"
  "tag_offset (put_lines idx ls c) = tag_offset c"
  "next_node (put_lines idx ls c) = next_node c"
  "cache_mshr_unavailable (put_lines idx ls c) = cache_mshr_unavailable c"
  "cache_set_unavailable (put_lines idx ls c) = cache_set_unavailable c"
  by (simp_all add: put_lines_def)

lemma same_shape_geometry:
  assumes "same_shape c c'"
  shows "get_index c' = get_index c" "get_tag c' = get_tag c" "align c' = align c"
  using assms by (simp_all add: same_shape_def fun_eq_iff get_index_def get_tag_def align_def)

lemma same_shape_tag_match:
  assumes "same_shape c c'"
  shows "tag_match c' = tag_match c"
  by (simp add: fun_eq_iff tag_match_def same_shape_geometry[OF assms])

lemma same_shape_simps:
  assumes "same_shape c c'"
  shows "get_index c' = get_index c" "get_tag c' = get_tag c" "align c' = align c"
    "tag_match c' = tag_match c" "hit_mshr c' = hit_mshr c" "is_hit c' = is_hit c"
    "all_sets_locked c' = all_sets_locked c" "need_eviction c' = need_eviction c"
    "victim_ok c' = victim_ok c"
proof -
  note g = same_shape_geometry[OF assms] same_shape_tag_match[OF assms]
  have f: "mshr_entries c' = mshr_entries c" "assoc c' = assoc c"
    "is_first_level c' = is_first_level c"
    using assms by (simp_all add: same_shape_def)
  show "get_index c' = get_index c" "get_tag c' = get_tag c" "align c' = align c"
    "tag_match c' = tag_match c" by (rule g)+
  show "hit_mshr c' = hit_mshr c" by (simp add: fun_eq_iff hit_mshr_def g f)
  show "is_hit c' = is_hit c" by (simp add: fun_eq_iff is_hit_def g)
  show "all_sets_locked c' = all_sets_locked c" by (simp add: fun_eq_iff all_sets_locked_def f)
  show "need_eviction c' = need_eviction c" by (simp add: fun_eq_iff need_eviction_def g f)
  show "victim_ok c' = victim_ok c" by (simp add: fun_eq_iff victim_ok_def f)
qed

lemma same_shape_refl [simp]: "same_shape c c"
  by (simp add: same_shape_def)

lemma same_shape_count [simp]:
  "same_shape c (count_access req c)" "same_shape c (count_miss req c)"
  "same_shape c (put_lines idx ls c)"
  by (simp_all add: same_shape_def)

lemma same_shape_trans: "same_shape a b \<Longrightarrow> same_shape b c \<Longrightarrow> same_shape a c"
  by (simp add: same_shape_def)

section \<open>Cache::invalidate on an absent block\<close>

text \<open>
  Claim C4, as the code has it. When the block of \<open>addr\<close> is not resident at this level,
  \<open>invalidate(addr)\<close> reports no dirty copy and erases no line: every set keeps its lines
  (a set that did not exist may now exist, empty) and nothing else in the cache or in
  the higher caches changes. The delay returned is 0 when the set does not exist or is
  empty, and \<open>latency_each[level]\<close> when the set has lines but none with the tag.
\<close>

theorem invalidate_absent:
  assumes "lines_at c (get_index c a) = None \<or>
           (\<exists>ls. lines_at c (get_index c a) = Some ls \<and> find_if (tag_match c a) ls = None)"
  shows "\<exists>c'. invalidate lat a (Hier c hs) =
           Inr ((if lines_at c (get_index c a) = None \<or> lines_at c (get_index c a) = Some []
                 then 0 else latency_each lat (level c), False), Hier c' hs) \<and>
           c' = c\<lparr>cache_lines := cache_lines c'\<rparr> \<and>
           (\<forall>idx ls. lines_at c idx = Some ls \<longrightarrow> lines_at c' idx = Some ls) \<and>
           (\<forall>idx. lines_at c idx = None \<longrightarrow> lines_at c' idx = None \<or> lines_at c' idx = Some [])"
proof (cases "lines_at c (get_index c a)")
  case None
  then have "invalidate lat a (Hier c hs) =
               Inr ((0, False), Hier (put_lines (get_index c a) [] c) hs)"
    by (simp add: get_lines_def)
  moreover have "put_lines (get_index c a) [] c =
                   c\<lparr>cache_lines := cache_lines (put_lines (get_index c a) [] c)\<rparr>"
    by (simp add: put_lines_def)
  ultimately show ?thesis using None
    by (intro exI[of _ "put_lines (get_index c a) [] c"]) (simp del: invalidate.simps)
next
  case (Some ls)
  with assms have nf: "find_if (tag_match c a) ls = None" by auto
  have "invalidate lat a (Hier c hs) =
          Inr ((if ls = [] then 0 else latency_each lat (level c), False), Hier c hs)"
    using Some nf by (simp add: get_lines_def Let_def)
  then show ?thesis using Some by (intro exI[of _ c]) (auto simp del: invalidate.simps)
qed

text \<open>
  On the empty L3 the set of address 4096 does not exist, and \<open>invalidate\<close> returns the
  delay 0, not \<open>latency_each[L3] = 28\<close>.
\<close>

theorem invalidate_absent_set_delay:
  "lines_at cache_L3 (get_index cache_L3 4096) = None \<and>
   invalidate lat_example 4096 (Hier cache_L3 []) =
     Inr ((0, False), Hier (put_lines 0 [] cache_L3) []) \<and>
   latency_each lat_example (level cache_L3) = 28"
  by code_simp

theorem invalidate_absent_witness:
  "(\<exists>ls. lines_at cache_L3_resident (get_index cache_L3_resident 4096) = Some ls \<and>
         find_if (tag_match cache_L3_resident 4096) ls = None) \<and>
   invalidate lat_example 4096 (Hier cache_L3_resident []) =
     Inr ((28, False), Hier cache_L3_resident [])"
proof -
  have l: "lines_at cache_L3_resident (get_index cache_L3_resident 4096) =
             Some [(0, \<lparr>addr = 0, tag = 0, lock = False, dirty = True\<rparr>)]"
    by code_simp
  have n: "find_if (tag_match cache_L3_resident 4096)
             [(0, \<lparr>addr = 0, tag = 0, lock = False, dirty = True\<rparr>)] = None"
    by code_simp
  have h: "lines_at cache_L3_resident (get_index cache_L3_resident 4096) = None \<or>
           (\<exists>ls. lines_at cache_L3_resident (get_index cache_L3_resident 4096) = Some ls \<and>
                 find_if (tag_match cache_L3_resident 4096) ls = None)"
    using l n by simp
  have v: "invalidate lat_example 4096 (Hier cache_L3_resident []) =
             Inr ((28, False), Hier cache_L3_resident [])"
    by code_simp
  from invalidate_absent[OF h, of lat_example "[]"] l n v show ?thesis by simp
qed

section \<open>Cache::callback\<close>

lemma callback_higher_Inr:
  "callback_higher req hs = Inr hs' \<longleftrightarrow>
     (length hs' = length hs \<and> (\<forall>k<length hs. callback req (hs ! k) = Inr (hs' ! k)))"
proof (induction hs arbitrary: hs')
  case Nil
  then show ?case by auto
next
  case (Cons h hs)
  show ?case
  proof (cases hs')
    case Nil
    then show ?thesis by (auto split: sum.splits)
  next
    case (Cons h' hs'')
    have "(\<forall>k<length (h # hs). callback req ((h # hs) ! k) = Inr ((h' # hs'') ! k)) \<longleftrightarrow>
          (callback req h = Inr h' \<and> (\<forall>k<length hs. callback req (hs ! k) = Inr (hs'' ! k)))"
      by (auto simp: less_Suc_eq_0_disj)
    then show ?thesis using Cons Cons.IH[of hs''] by (auto split: sum.splits)
  qed
qed

text \<open>
  Claim C10. If no MSHR entry of the cache has the block-aligned address of the request,
  \<open>callback\<close> leaves the cache as it is and its result is that of the calls on the
  higher caches. If entry \<open>i\<close> is the first with that aligned address and its iterator
  points to the node at position \<open>j\<close> of a set, then the lock of that line is cleared,
  entry \<open>i\<close> is removed, nothing else in the cache changes, and the calls on the higher
  caches follow. The calls on the higher caches return exactly when the call on each of
  them returns, and each higher cache is replaced by the result of its own call.
\<close>

theorem callback_mshr:
  "((\<forall>e \<in> set (mshr_entries c). align c (fst e) \<noteq> align c (Request.addr req)) \<longrightarrow>
      callback req (Hier c hs) =
        (case callback_higher req hs of Inl f \<Rightarrow> Inl f | Inr hs' \<Rightarrow> Inr (Hier c hs'))) \<and>
   (\<forall>i idx n ls j.
      i < length (mshr_entries c) \<and>
      align c (fst (mshr_entries c ! i)) = align c (Request.addr req) \<and>
      (\<forall>k<i. align c (fst (mshr_entries c ! k)) \<noteq> align c (Request.addr req)) \<and>
      snd (mshr_entries c ! i) = (idx, n) \<and>
      lines_at c idx = Some ls \<and>
      j < length ls \<and> fst (ls ! j) = n \<and> (\<forall>k<j. fst (ls ! k) \<noteq> n) \<longrightarrow>
      callback req (Hier c hs) =
        (case callback_higher req hs of
           Inl f \<Rightarrow> Inl f
         | Inr hs' \<Rightarrow>
             Inr (Hier (c\<lparr>cache_lines :=
                            AList.update idx (ls[j := (n, (snd (ls ! j))\<lparr>lock := False\<rparr>)])
                              (cache_lines c),
                          mshr_entries := erase i (mshr_entries c)\<rparr>) hs'))) \<and>
   (\<forall>hs'. callback_higher req hs = Inr hs' \<longleftrightarrow>
      (length hs' = length hs \<and> (\<forall>k<length hs. callback req (hs ! k) = Inr (hs' ! k))))"
proof (intro conjI allI impI)
  assume "\<forall>e \<in> set (mshr_entries c). align c (fst e) \<noteq> align c (Request.addr req)"
  then have "find_if (\<lambda>e. align c (fst e) = align c (Request.addr req)) (mshr_entries c) = None"
    by (simp add: find_if_None_iff)
  then show "callback req (Hier c hs) =
        (case callback_higher req hs of Inl f \<Rightarrow> Inl f | Inr hs' \<Rightarrow> Inr (Hier c hs'))"
    by (simp add: callback_here_def)
next
  fix i idx n ls j
  assume H: "i < length (mshr_entries c) \<and>
      align c (fst (mshr_entries c ! i)) = align c (Request.addr req) \<and>
      (\<forall>k<i. align c (fst (mshr_entries c ! k)) \<noteq> align c (Request.addr req)) \<and>
      snd (mshr_entries c ! i) = (idx, n) \<and>
      lines_at c idx = Some ls \<and>
      j < length ls \<and> fst (ls ! j) = n \<and> (\<forall>k<j. fst (ls ! k) \<noteq> n)"
  then have f: "find_if (\<lambda>e. align c (fst e) = align c (Request.addr req)) (mshr_entries c) = Some i"
    by (simp add: find_if_Some_iff)
  from H have g: "find_if (\<lambda>x. fst x = n) ls = Some j" by (simp add: find_if_Some_iff)
  have u: "update_node (idx, n) (\<lambda>l. l\<lparr>lock := False\<rparr>) c =
             Some (put_lines idx (ls[j := (n, (snd (ls ! j))\<lparr>lock := False\<rparr>)]) c)"
    using H g by (simp add: update_node_def)
  have "callback_here req c =
          Inr (c\<lparr>cache_lines := AList.update idx (ls[j := (n, (snd (ls ! j))\<lparr>lock := False\<rparr>)])
                              (cache_lines c),
                 mshr_entries := erase i (mshr_entries c)\<rparr>)"
    using f u H by (simp add: callback_here_def put_lines_def)
  then show "callback req (Hier c hs) =
        (case callback_higher req hs of
           Inl f \<Rightarrow> Inl f
         | Inr hs' \<Rightarrow>
             Inr (Hier (c\<lparr>cache_lines :=
                            AList.update idx (ls[j := (n, (snd (ls ! j))\<lparr>lock := False\<rparr>)])
                              (cache_lines c),
                          mshr_entries := erase i (mshr_entries c)\<rparr>) hs'))"
    by simp
next
  fix hs'
  show "callback_higher req hs = Inr hs' \<longleftrightarrow>
      (length hs' = length hs \<and> (\<forall>k<length hs. callback req (hs ! k) = Inr (hs' ! k)))"
    by (rule callback_higher_Inr)
qed

text \<open>
  The L3 with an outstanding miss on address 0: the callback for address 32 (the same
  block) unlocks the line and empties the MSHR table; the callback for address 4096
  changes nothing.
\<close>

theorem callback_mshr_witness:
  "callback (Request_new 32 READ) (Hier cache_L3_miss []) =
     Inr (Hier (cache_L3_miss\<lparr>cache_lines := [(0, [(0, (Line_new 0 0)\<lparr>lock := False\<rparr>)])],
                              mshr_entries := []\<rparr>) []) \<and>
   hit_mshr cache_L3_miss 32 = Some 0 \<and>
   callback (Request_new 4096 READ) (Hier cache_L3_miss []) = Inr (Hier cache_L3_miss []) \<and>
   hit_mshr cache_L3_miss 4096 = None"
proof -
  have m: "mshr_entries cache_L3_miss = [(0, (0, 0))]"
    "lines_at cache_L3_miss 0 = Some [(0, Line_new 0 0)]"
    "align cache_L3_miss 0 = align cache_L3_miss (Request.addr (Request_new 32 READ))"
    by code_simp+
  have "callback (Request_new 32 READ) (Hier cache_L3_miss []) =
          Inr (Hier (cache_L3_miss\<lparr>cache_lines :=
                  AList.update 0 ([(0, Line_new 0 0)][0 := (0, (snd ([(0, Line_new 0 0)] ! 0))\<lparr>lock := False\<rparr>)])
                    (cache_lines cache_L3_miss),
                mshr_entries := erase 0 (mshr_entries cache_L3_miss)\<rparr>) [])"
    using callback_mshr[of cache_L3_miss "Request_new 32 READ" "[]", THEN conjunct2, THEN conjunct1,
            rule_format, of 0 0 0 "[(0, Line_new 0 0)]" 0] m
    by simp
  moreover have "AList.update 0 ([(0, Line_new 0 0)][0 := (0, (snd ([(0, Line_new 0 0)] ! 0))\<lparr>lock := False\<rparr>)])
                    (cache_lines cache_L3_miss) = [(0, [(0, (Line_new 0 0)\<lparr>lock := False\<rparr>)])]"
    "erase 0 (mshr_entries cache_L3_miss) = []"
    by code_simp+
  ultimately have a: "callback (Request_new 32 READ) (Hier cache_L3_miss []) =
     Inr (Hier (cache_L3_miss\<lparr>cache_lines := [(0, [(0, (Line_new 0 0)\<lparr>lock := False\<rparr>)])],
                              mshr_entries := []\<rparr>) [])"
    by simp
  have h: "\<forall>e \<in> set (mshr_entries cache_L3_miss).
      align cache_L3_miss (fst e) \<noteq> align cache_L3_miss (Request.addr (Request_new 4096 READ))"
    by code_simp
  from callback_mshr[of cache_L3_miss "Request_new 4096 READ" "[]"] h
  have b: "callback (Request_new 4096 READ) (Hier cache_L3_miss []) = Inr (Hier cache_L3_miss [])"
    by simp
  have c: "hit_mshr cache_L3_miss 32 = Some 0" "hit_mshr cache_L3_miss 4096 = None"
    by code_simp+
  from a b c show ?thesis by blast
qed

section \<open>Cache::evict\<close>

lemma evict_invalidate_dirty:
  "evict_invalidate lat lv a vd hs acc = Inr ((t, d), hs') \<Longrightarrow>
   d = (snd acc \<or> (hs \<noteq> [] \<and> vd) \<or> higher_dirty lat a hs)"
proof (induction hs arbitrary: acc hs')
  case Nil
  then show ?case by (auto simp: higher_dirty_def)
next
  case (Cons hc rest)
  from Cons.prems obtain result hc' where inv: "invalidate lat a hc = Inr (result, hc')"
    by (auto simp del: invalidate.simps split: sum.splits)
  define acc' where
    "acc' = (max (fst acc) (fst result + (if snd result then latency_each lat lv else 0)),
             snd acc \<or> snd result \<or> vd)"
  from Cons.prems inv obtain rest' where
    rec: "evict_invalidate lat lv a vd rest acc' = Inr ((t, d), rest')"
    by (auto simp: acc'_def simp del: invalidate.simps split: sum.splits)
  from Cons.IH[OF rec] have "d = (snd acc' \<or> (rest \<noteq> [] \<and> vd) \<or> higher_dirty lat a rest)" .
  moreover have "higher_dirty lat a (hc # rest) = (snd result \<or> higher_dirty lat a rest)"
    using inv by (simp add: higher_dirty_def del: invalidate.simps)
  ultimately show ?case by (auto simp: acc'_def)
qed

text \<open>
  Claim C5. Let the invalidation of the victim's address in the higher caches return the
  time \<open>invalidate_time\<close>, the flag \<open>d\<close> and the higher caches \<open>hs'\<close>. Then \<open>d\<close> is the
  victim's dirty bit or a dirty copy reported by some higher cache. In a cache that is
  not the last level, \<open>evict\<close> replaces the lower cache by the result of
  \<open>refresh_lru_lower(victim.addr, d)\<close> and leaves the cache system, hence \<open>wait_list\<close>, as
  it is. In a last-level cache with \<open>d\<close> true it appends one entry to \<open>wait_list\<close>, a WRITE
  request for the victim's address due at \<open>clk + invalidate_time + latency[level]\<close>; with
  \<open>d\<close> false the cache system stays as it is. In each case the set afterwards is the set
  without the victim.
\<close>

theorem evict_spec:
  assumes "evict_invalidate lat (level c) (addr (snd (ls ! victim))) (dirty (snd (ls ! victim))) hs
             (0, dirty (snd (ls ! victim))) = Inr ((invalidate_time, d), hs')"
  shows "d = (dirty (snd (ls ! victim)) \<or> higher_dirty lat (addr (snd (ls ! victim))) hs) \<and>
    (\<not> is_last_level c \<longrightarrow>
       (\<forall>lc lc'. refresh_lru_lower (addr (snd (ls ! victim))) d lc = Inr lc' \<longrightarrow>
          evict lat idx ls victim (cs, c, hs, Some lc) =
            Inr (cs, put_lines idx (erase victim ls) (c\<lparr>cache_eviction := Suc (cache_eviction c)\<rparr>),
                 hs', Some lc'))) \<and>
    (is_last_level c \<and> d \<longrightarrow>
       evict lat idx ls victim (cs, c, hs, lower) =
         Inr (cs\<lparr>wait_list := wait_list cs @
                   [(CacheSystem.clk cs + invalidate_time + latency lat (level c),
                     Request_new (addr (snd (ls ! victim))) WRITE)]\<rparr>,
              put_lines idx (erase victim ls) (c\<lparr>cache_eviction := Suc (cache_eviction c)\<rparr>),
              hs', lower)) \<and>
    (is_last_level c \<and> \<not> d \<longrightarrow>
       evict lat idx ls victim (cs, c, hs, lower) =
         Inr (cs, put_lines idx (erase victim ls) (c\<lparr>cache_eviction := Suc (cache_eviction c)\<rparr>),
              hs', lower)) \<and>
    lines_at (put_lines idx (erase victim ls) (c\<lparr>cache_eviction := Suc (cache_eviction c)\<rparr>)) idx =
      Some (erase victim ls) \<and>
    Request.addr (Request_new (addr (snd (ls ! victim))) WRITE) = addr (snd (ls ! victim)) \<and>
    Request.type (Request_new (addr (snd (ls ! victim))) WRITE) = WRITE"
proof -
  have 1: "d = (dirty (snd (ls ! victim)) \<or> higher_dirty lat (addr (snd (ls ! victim))) hs)"
    using evict_invalidate_dirty[OF assms] by auto
  have 2: "\<not> is_last_level c \<longrightarrow>
       (\<forall>lc lc'. refresh_lru_lower (addr (snd (ls ! victim))) d lc = Inr lc' \<longrightarrow>
          evict lat idx ls victim (cs, c, hs, Some lc) =
            Inr (cs, put_lines idx (erase victim ls) (c\<lparr>cache_eviction := Suc (cache_eviction c)\<rparr>),
                 hs', Some lc'))"
    using assms by (simp add: evict_def Let_def)
  have 3: "is_last_level c \<and> d \<longrightarrow>
       evict lat idx ls victim (cs, c, hs, lower) =
         Inr (cs\<lparr>wait_list := wait_list cs @
                   [(CacheSystem.clk cs + invalidate_time + latency lat (level c),
                     Request_new (addr (snd (ls ! victim))) WRITE)]\<rparr>,
              put_lines idx (erase victim ls) (c\<lparr>cache_eviction := Suc (cache_eviction c)\<rparr>),
              hs', lower)"
    using assms by (simp add: evict_def Let_def)
  have 4: "is_last_level c \<and> \<not> d \<longrightarrow>
       evict lat idx ls victim (cs, c, hs, lower) =
         Inr (cs, put_lines idx (erase victim ls) (c\<lparr>cache_eviction := Suc (cache_eviction c)\<rparr>),
              hs', lower)"
    using assms by (simp add: evict_def Let_def)
  have 5: "Request.addr (Request_new (addr (snd (ls ! victim))) WRITE) = addr (snd (ls ! victim))"
    "Request.type (Request_new (addr (snd (ls ! victim))) WRITE) = WRITE"
    by (simp_all add: Request_new_def)
  show ?thesis using 1 2 3 4 5 by simp
qed

text \<open>
  The L3 evicts its dirty block 0 at clock 100: the write-back is due at 140. The L2
  above the L3 evicts its clean block 0: the L3 refreshes its line and \<open>wait_list\<close> stays
  empty. The L3 evicts a clean block 0 that the L2 above it holds dirty: the invalidation
  takes 8 + 28 cycles and reports the dirty copy, and the write-back is due at 176.
\<close>

theorem evict_spec_witness:
  "evict lat_example 0 [(0, \<lparr>addr = 0, tag = 0, lock = False, dirty = True\<rparr>)] 0
     (cs_example, cache_L3_resident, [], None) =
     Inr (cs_example\<lparr>wait_list := [(140, Request_new 0 WRITE)]\<rparr>,
          put_lines 0 [] (cache_L3_resident\<lparr>cache_eviction := 1\<rparr>), [], None) \<and>
   evict lat_example 0 [(0, \<lparr>addr = 0, tag = 0, lock = False, dirty = False\<rparr>)] 0
     (cs_example, cache_L2_resident, [], Some cache_L3_resident) =
     Inr (cs_example, put_lines 0 [] (cache_L2_resident\<lparr>cache_eviction := 1\<rparr>), [],
          Some (cache_L3_resident\<lparr>cache_lines := [(0, [(1, \<lparr>addr = 0, tag = 0, lock = False, dirty = True\<rparr>)])],
                                  next_node := 2\<rparr>)) \<and>
   evict lat_example 0 [(0, \<lparr>addr = 0, tag = 0, lock = False, dirty = False\<rparr>)] 0
     (cs_example, cache_L3_resident, [Hier cache_L2_dirty []], None) =
     Inr (cs_example\<lparr>wait_list := [(176, Request_new 0 WRITE)]\<rparr>,
          put_lines 0 [] (cache_L3_resident\<lparr>cache_eviction := 1\<rparr>),
          [Hier (put_lines 0 [] cache_L2_dirty) []], None)"
proof -
  let ?ls = "[(0::nat, \<lparr>addr = 0, tag = 0, lock = False, dirty = True\<rparr>)]"
  let ?ls2 = "[(0::nat, \<lparr>addr = 0, tag = 0, lock = False, dirty = False\<rparr>)]"
  have h: "evict_invalidate lat_example (level cache_L3_resident) (addr (snd (?ls ! 0)))
             (dirty (snd (?ls ! 0))) [] (0, dirty (snd (?ls ! 0))) = Inr ((0, True), [])"
    by simp
  have h2: "evict_invalidate lat_example (level cache_L2_resident) (addr (snd (?ls2 ! 0)))
             (dirty (snd (?ls2 ! 0))) [] (0, dirty (snd (?ls2 ! 0))) = Inr ((0, False), [])"
    by simp
  have l: "is_last_level cache_L3_resident" "\<not> is_last_level cache_L2_resident"
    "CacheSystem.clk cs_example + 0 + latency lat_example (level cache_L3_resident) = 140"
    "wait_list cs_example = []" "erase 0 ?ls = []" "erase 0 ?ls2 = []"
    "cache_eviction cache_L3_resident = 0" "cache_eviction cache_L2_resident = 0"
    by code_simp+
  have r: "refresh_lru_lower (addr (snd (?ls2 ! 0))) False cache_L3_resident =
             Inr (cache_L3_resident\<lparr>cache_lines := [(0, [(1, \<lparr>addr = 0, tag = 0, lock = False, dirty = True\<rparr>)])],
                                  next_node := 2\<rparr>)"
    by code_simp
  from evict_spec[OF h, of 0 cs_example None] l
  have a: "evict lat_example 0 ?ls 0 (cs_example, cache_L3_resident, [], None) =
     Inr (cs_example\<lparr>wait_list := [(140, Request_new 0 WRITE)]\<rparr>,
          put_lines 0 [] (cache_L3_resident\<lparr>cache_eviction := 1\<rparr>), [], None)"
    by simp
  from evict_spec[OF h2, of 0 cs_example None] l r
  have b: "evict lat_example 0 ?ls2 0 (cs_example, cache_L2_resident, [], Some cache_L3_resident) =
     Inr (cs_example, put_lines 0 [] (cache_L2_resident\<lparr>cache_eviction := 1\<rparr>), [],
          Some (cache_L3_resident\<lparr>cache_lines := [(0, [(1, \<lparr>addr = 0, tag = 0, lock = False, dirty = True\<rparr>)])],
                                  next_node := 2\<rparr>))"
    by simp
  have h3: "evict_invalidate lat_example (level cache_L3_resident) (addr (snd (?ls2 ! 0)))
             (dirty (snd (?ls2 ! 0))) [Hier cache_L2_dirty []] (0, dirty (snd (?ls2 ! 0))) =
             Inr ((36, True), [Hier (put_lines 0 [] cache_L2_dirty) []])"
    by code_simp
  have l3: "CacheSystem.clk cs_example + 36 + latency lat_example (level cache_L3_resident) = 176"
    by code_simp
  from evict_spec[OF h3, of 0 cs_example None] l l3
  have c: "evict lat_example 0 ?ls2 0 (cs_example, cache_L3_resident, [Hier cache_L2_dirty []], None) =
     Inr (cs_example\<lparr>wait_list := [(176, Request_new 0 WRITE)]\<rparr>,
          put_lines 0 [] (cache_L3_resident\<lparr>cache_eviction := 1\<rparr>),
          [Hier (put_lines 0 [] cache_L2_dirty) []], None)"
    by simp
  from a b c show ?thesis by blast
qed

section \<open>Cache::send\<close>

lemma get_lines_shape [simp]: "same_shape c (fst (get_lines c a))"
  by (simp add: get_lines_def split: option.splits)

lemma get_lines_fields [simp]:
  "mshr_entries (fst (get_lines c a)) = mshr_entries c"
  "mshr_entry_num (fst (get_lines c a)) = mshr_entry_num c"
  "assoc (fst (get_lines c a)) = assoc c"
  "level (fst (get_lines c a)) = level c"
  "is_first_level (fst (get_lines c a)) = is_first_level c"
  "is_last_level (fst (get_lines c a)) = is_last_level c"
  "next_node (fst (get_lines c a)) = next_node c"
  "cache_mshr_unavailable (fst (get_lines c a)) = cache_mshr_unavailable c"
  "cache_set_unavailable (fst (get_lines c a)) = cache_set_unavailable c"
  by (simp_all add: get_lines_def split: option.splits)

lemma get_lines_target: "snd (get_lines c a) = target_set c a"
  by (simp add: get_lines_def target_set_def split: option.splits)

lemma lines_at_count_access [simp]: "lines_at (count_access req c) = lines_at c"
  by (simp add: fun_eq_iff lines_at_def)

lemma lines_at_count_miss [simp]: "lines_at (count_miss req c) = lines_at c"
  by (simp add: fun_eq_iff lines_at_def)

lemma target_set_count_access [simp]: "target_set (count_access req c) a = target_set c a"
  by (simp add: target_set_def same_shape_simps[OF same_shape_count(1)])

lemma get_lines_pair:
  "c1 = fst (get_lines (count_access req c) a) \<Longrightarrow>
   get_lines (count_access req c) a = (c1, target_set c a)"
  by (simp add: prod_eq_iff get_lines_target)

text \<open>The first cache of send: after counting the access and looking up the set.\<close>

lemma shape1: "c1 = fst (get_lines (count_access req c) a) \<Longrightarrow> same_shape c c1"
  using same_shape_trans[OF same_shape_count(1) get_lines_shape] by simp

lemma shape2: "c1 = fst (get_lines (count_access req c) a) \<Longrightarrow> same_shape c (count_miss req c1)"
  using same_shape_trans[OF shape1 same_shape_count(2)] by simp

lemma send_here_hit:
  assumes "hits c (Request.addr req)"
  shows "\<exists>v'. send_here lat req (cs, c, hs, lower) = Inr (True, None, v')"
proof -
  define c1 where "c1 = fst (get_lines (count_access req c) (Request.addr req))"
  note gl = get_lines_pair[OF c1_def] and s1 = same_shape_simps[OF shape1[OF c1_def]]
  from assms obtain pos where "is_hit c (target_set c (Request.addr req)) (Request.addr req) = (Some pos, True)"
    by (auto simp: hits_def is_hit_def split: option.splits)
  then show ?thesis
    by (simp add: send_here_def Let_def gl s1)
qed

lemma is_hit_miss:
  "\<not> hits c a \<Longrightarrow> is_hit c (target_set c a) a = (None, False) \<or> (\<exists>pos. is_hit c (target_set c a) a = (Some pos, False))"
  by (auto simp: hits_def is_hit_def split: option.splits)

lemma send_here_miss:
  assumes "\<not> hits c (Request.addr req)"
  shows "send_here lat req (cs, c, hs, lower) =
     (let a = Request.addr req;
          lines = target_set c a;
          c2 = count_miss req (fst (get_lines (count_access req c) a));
          d = (Request.type req = WRITE);
          req' = (if Request.type req = WRITE then req\<lparr>Request.type := READ\<rparr> else req)
      in case hit_mshr c a of
           Some m \<Rightarrow>
             (case update_node (snd (mshr_entries c ! m)) (\<lambda>l. l\<lparr>dirty := (d \<or> dirty l)\<rparr>)
                     (c2\<lparr>cache_mshr_hit := Suc (cache_mshr_hit c2)\<rparr>) of
                None \<Rightarrow> Inl InvalidIterator
              | Some c4 \<Rightarrow> Inr (True, None, (cs, c4, hs, lower)))
         | None \<Rightarrow>
             if mshr_full c then
               Inr (False, None,
                    (cs, c2\<lparr>cache_mshr_unavailable := Suc (cache_mshr_unavailable c)\<rparr>, hs, lower))
             else if all_sets_locked c lines then
               Inr (False, None,
                    (cs, c2\<lparr>cache_set_unavailable := Suc (cache_set_unavailable c)\<rparr>, hs, lower))
             else
               (case allocate_line lat (get_index c a) lines a (cs, c2, hs, lower) of
                  Inl f \<Rightarrow> Inl f
                | Inr (None, v') \<Rightarrow> Inr (False, None, v')
                | Inr (Some newline, (cs3, c3, hs3, lower3)) \<Rightarrow>
                    (case update_node newline (\<lambda>l. l\<lparr>dirty := d\<rparr>) c3 of
                       None \<Rightarrow> Inl InvalidIterator
                     | Some c4 \<Rightarrow>
                         Inr (True, Some req',
                              (cs3, c4\<lparr>mshr_entries := mshr_entries c4 @ [(Request.addr req', newline)]\<rparr>,
                               hs3, lower3)))))"
proof -
  define c1 where "c1 = fst (get_lines (count_access req c) (Request.addr req))"
  note gl = get_lines_pair[OF c1_def] and s1 = same_shape_simps[OF shape1[OF c1_def]]
    and s2 = same_shape_simps[OF shape2[OF c1_def]]
  have ra: "Request.addr (if Request.type req = WRITE then req\<lparr>Request.type := READ\<rparr> else req) = Request.addr req"
    by simp
  have f: "mshr_entries c1 = mshr_entries c"
    "mshr_entry_num c1 = mshr_entry_num c"
    "cache_mshr_unavailable c1 = cache_mshr_unavailable c"
    "cache_set_unavailable c1 = cache_set_unavailable c"
    by (simp_all add: c1_def)
  from is_hit_miss[OF assms] show ?thesis
  proof
    assume "is_hit c (target_set c (Request.addr req)) (Request.addr req) = (None, False)"
    then show ?thesis
      unfolding send_here_def Let_def gl prod.case
      by (simp add: ra f mshr_full_def s1 s2 split: option.split sum.split prod.split)
  next
    assume "\<exists>pos. is_hit c (target_set c (Request.addr req)) (Request.addr req) = (Some pos, False)"
    then obtain pos where "is_hit c (target_set c (Request.addr req)) (Request.addr req) = (Some pos, False)" ..
    then show ?thesis
      unfolding send_here_def Let_def gl prod.case
      by (simp add: ra f mshr_full_def s1 s2 split: option.split sum.split prod.split)
  qed
qed


lemma allocate_line_None_iff:
  "allocate_line lat idx ls a (cs, c, hs, lower) = Inr (r, v') \<Longrightarrow>
   (r = None \<longleftrightarrow> (\<not> length ls < assoc c \<and> find_if (victim_ok c hs) ls = None))"
  by (auto simp: allocate_line_def need_eviction_def split: if_splits option.splits sum.splits)

lemma allocate_line_no_victim:
  "find_if (tag_match c a) ls = None \<Longrightarrow> \<not> length ls < assoc c \<Longrightarrow>
   find_if (victim_ok c hs) ls = None \<Longrightarrow>
   allocate_line lat idx ls a (cs, c, hs, lower) = Inr (None, (cs, c, hs, lower))"
  by (simp add: allocate_line_def need_eviction_def)

lemma send_here_result:
  assumes "send_here lat req (cs, c, hs, lower) = Inr (b, fwd, v')"
  shows "(\<not> b \<longleftrightarrow> structurally_refused c hs (Request.addr req)) \<and> (fwd \<noteq> None \<longrightarrow> b)"
proof (cases "hits c (Request.addr req)")
  case True
  from send_here_hit[OF True, of lat cs hs lower] assms True show ?thesis
    by (auto simp: structurally_refused_def)
next
  case False
  define c1 where "c1 = fst (get_lines (count_access req c) (Request.addr req))"
  note s2 = same_shape_simps[OF shape2[OF c1_def]]
  have as: "assoc c1 = assoc c" by (simp add: c1_def)
  show ?thesis
  proof (cases "hit_mshr c (Request.addr req)")
    case (Some m)
    then show ?thesis using assms False
      by (auto simp: send_here_miss[OF False] Let_def structurally_refused_def merges_def
            split: option.splits)
  next
    case None
    show ?thesis
    proof (cases "mshr_full c \<or> all_sets_locked c (target_set c (Request.addr req))")
      case True
      then show ?thesis using assms False None
        by (auto simp: send_here_miss[OF False] Let_def structurally_refused_def merges_def
              split: if_splits)
    next
      case nf: False
      from assms False None nf obtain r w where
        al: "allocate_line lat (get_index c (Request.addr req)) (target_set c (Request.addr req))
               (Request.addr req) (cs, count_miss req c1, hs, lower) = Inr (r, w)"
        and bb: "b = (r \<noteq> None)" and ff: "fwd \<noteq> None \<longrightarrow> b"
        by (auto simp: send_here_miss[OF False] Let_def c1_def split: sum.splits option.splits)
      from allocate_line_None_iff[OF al]
      have "r = None \<longleftrightarrow> no_victim c hs (Request.addr req)"
        by (simp add: no_victim_def s2 as)
      then show ?thesis using bb ff False None nf
        by (auto simp: structurally_refused_def merges_def)
    qed
  qed
qed

lemma put_lower_lower_of [simp]: "put_lower (lower_of ctx) ctx = ctx"
  by (cases ctx) auto

lemma send_via_here:
  assumes "send lat req (cs, c, hs, ctx) = Inr (b, v')"
  shows "\<exists>fwd lv. send_here lat req (cs, c, hs, lower_of ctx) = Inr (b, fwd, lv)"
proof (cases ctx)
  case Nil
  obtain r where r: "send_here lat req (cs, c, hs, None) = r" by simp
  show ?thesis
  proof (cases r)
    case (Inl f)
    then show ?thesis using assms Nil r by simp
  next
    case (Inr x)
    then obtain b' fwd cs1 c1 hs1 lo1 where x: "r = Inr (b', fwd, (cs1, c1, hs1, lo1))"
      by (cases x) auto
    from send_here_result[OF r[unfolded x]] have "fwd \<noteq> None \<longrightarrow> b'" by simp
    then show ?thesis using assms Nil r x
      by (cases fwd) (auto split: if_splits)
  qed
next
  case (Cons fr ctx')
  obtain lc ls rs where fr: "fr = (lc, ls, rs)" by (cases fr) auto
  obtain r where r: "send_here lat req (cs, c, hs, Some lc) = r" by simp
  show ?thesis
  proof (cases r)
    case (Inl f)
    then show ?thesis using assms Cons fr r by simp
  next
    case (Inr x)
    then obtain b' fwd cs1 c1 hs1 lo1 where x: "r = Inr (b', fwd, (cs1, c1, hs1, lo1))"
      by (cases x) auto
    from send_here_result[OF r[unfolded x]] have "fwd \<noteq> None \<longrightarrow> b'" by simp
    then show ?thesis using assms Cons fr r x
      by (cases fwd) (auto split: if_splits option.splits sum.splits)
  qed
qed

lemma send_no_forward:
  assumes "send_here lat req (cs, c, hs, lower_of ctx) = Inr (b, None, (cs1, c1, hs1, lo1))"
  shows "send lat req (cs, c, hs, ctx) = Inr (b, (cs1, c1, hs1, put_lower lo1 ctx))"
proof (cases ctx)
  case Nil
  then show ?thesis using assms by simp
next
  case (Cons fr ctx')
  obtain lc ls rs where fr: "fr = (lc, ls, rs)" by (cases fr) auto
  show ?thesis using assms Cons fr by simp
qed


lemma lines_at_get_lines:
  "lines_at (fst (get_lines c a)) idx =
     (if idx = get_index c a \<and> lines_at c idx = None then Some [] else lines_at c idx)"
  by (auto simp: get_lines_def split: option.splits)

lemma lines_at_mshr_hit [simp]: "lines_at (c\<lparr>cache_mshr_hit := x\<rparr>) = lines_at c"
  by (simp add: fun_eq_iff lines_at_def)

lemma update_node_present:
  assumes "node_present it c" and "\<And>ls. lines_at c (fst it) = Some ls \<Longrightarrow> lines_at c' (fst it) = Some ls"
  shows "\<exists>c''. update_node it f c' = Some c''"
  using assms by (auto simp: node_present_def update_node_def split: option.splits)

lemma send_here_merge:
  assumes "\<not> hits c (Request.addr req)" and "hit_mshr c (Request.addr req) = Some m"
    and "node_present (snd (mshr_entries c ! m)) c"
  shows "\<exists>v'. send_here lat req (cs, c, hs, lower) = Inr (True, None, v')"
proof -
  define c1 where "c1 = fst (get_lines (count_access req c) (Request.addr req))"
  define c3 where "c3 = (count_miss req c1)\<lparr>cache_mshr_hit := Suc (cache_mshr_hit (count_miss req c1))\<rparr>"
  have "\<And>ls. lines_at c (fst (snd (mshr_entries c ! m))) = Some ls \<Longrightarrow>
             lines_at c3 (fst (snd (mshr_entries c ! m))) = Some ls"
    by (simp add: c3_def c1_def lines_at_get_lines)
  from update_node_present[OF assms(3) this]
  obtain c4 where "update_node (snd (mshr_entries c ! m))
       (\<lambda>l. l\<lparr>dirty := (Request.type req = WRITE \<or> dirty l)\<rparr>) c3 = Some c4"
    by blast
  then show ?thesis using assms(2)
    by (simp add: send_here_miss[OF assms(1)] Let_def c3_def c1_def)
qed

lemma send_here_mshr_full:
  assumes "\<not> hits c (Request.addr req)" and "\<not> merges c (Request.addr req)" and "mshr_full c"
  shows "\<exists>c'. send_here lat req (cs, c, hs, lower) = Inr (False, None, (cs, c', hs, lower)) \<and>
           cache_mshr_unavailable c' = Suc (cache_mshr_unavailable c) \<and>
           cache_set_unavailable c' = cache_set_unavailable c"
  using assms by (simp add: send_here_miss[OF assms(1)] Let_def merges_def)

lemma send_here_set_locked:
  assumes "\<not> hits c (Request.addr req)" and "\<not> merges c (Request.addr req)" and "\<not> mshr_full c"
    and "all_sets_locked c (target_set c (Request.addr req))"
  shows "\<exists>c'. send_here lat req (cs, c, hs, lower) = Inr (False, None, (cs, c', hs, lower)) \<and>
           cache_set_unavailable c' = Suc (cache_set_unavailable c) \<and>
           cache_mshr_unavailable c' = cache_mshr_unavailable c"
  using assms by (simp add: send_here_miss[OF assms(1)] Let_def merges_def)

lemma send_here_no_victim:
  assumes "\<not> hits c (Request.addr req)" and "\<not> merges c (Request.addr req)" and "\<not> mshr_full c"
    and "\<not> all_sets_locked c (target_set c (Request.addr req))"
    and "find_if (tag_match c (Request.addr req)) (target_set c (Request.addr req)) = None"
    and "no_victim c hs (Request.addr req)"
  shows "\<exists>c'. send_here lat req (cs, c, hs, lower) = Inr (False, None, (cs, c', hs, lower)) \<and>
           cache_set_unavailable c' = cache_set_unavailable c \<and>
           cache_mshr_unavailable c' = cache_mshr_unavailable c"
proof -
  define c1 where "c1 = fst (get_lines (count_access req c) (Request.addr req))"
  note s2 = same_shape_simps[OF shape2[OF c1_def]]
  have as: "assoc c1 = assoc c" by (simp add: c1_def)
  have "allocate_line lat (get_index c (Request.addr req)) (target_set c (Request.addr req))
          (Request.addr req) (cs, count_miss req c1, hs, lower) =
        Inr (None, (cs, count_miss req c1, hs, lower))"
    using assms(5,6) by (intro allocate_line_no_victim) (simp_all add: s2 as no_victim_def)
  then show ?thesis using assms
    by (simp add: send_here_miss[OF assms(1)] Let_def merges_def c1_def)
qed

lemma push_line_present:
  "node_present (idx, next_node c) (push_line idx ls l c)"
  by (simp add: node_present_def push_line_def lines_at_def put_lines_def update_conv' find_if_None_iff)

lemma push_line_last [simp]: "is_last_level (push_line idx ls l c) = is_last_level c"
  by (simp add: push_line_def)

lemma update_node_last:
  "update_node it f c = Some c' \<Longrightarrow> is_last_level c' = is_last_level c"
  by (auto simp: update_node_def split: option.splits)

lemma allocate_line_single:
  assumes "find_if (tag_match c a) ls = None" and "is_last_level c"
    and "\<not> (\<not> length ls < assoc c \<and> find_if (victim_ok c []) ls = None)"
  shows "\<exists>cs' c' n. allocate_line lat idx ls a (cs, c, [], lower) =
                      Inr (Some (idx, n), (cs', c', [], lower)) \<and>
                    node_present (idx, n) c' \<and> is_last_level c'"
proof (cases "length ls < assoc c")
  case True
  then have "allocate_line lat idx ls a (cs, c, [], lower) =
      Inr (Some (idx, next_node c), (cs, push_line idx ls (Line_new a (get_tag c a)) c, [], lower))"
    using assms(1) by (simp add: allocate_line_def need_eviction_def)
  then show ?thesis using push_line_present[of idx c ls] assms(2) by auto
next
  case False
  with assms(3) obtain v where v: "find_if (victim_ok c []) ls = Some v" by auto
  have "\<exists>cs'. evict lat idx ls v (cs, c, [], lower) =
      Inr (cs', put_lines idx (erase v ls) (c\<lparr>cache_eviction := Suc (cache_eviction c)\<rparr>), [], lower)"
    using assms(2) by (cases "dirty (snd (ls ! v))") (simp_all add: evict_def Let_def)
  then obtain cs' where e: "evict lat idx ls v (cs, c, [], lower) =
      Inr (cs', put_lines idx (erase v ls) (c\<lparr>cache_eviction := Suc (cache_eviction c)\<rparr>), [], lower)"
    by blast
  define c' where "c' = put_lines idx (erase v ls) (c\<lparr>cache_eviction := Suc (cache_eviction c)\<rparr>)"
  have "allocate_line lat idx ls a (cs, c, [], lower) =
      Inr (Some (idx, next_node c'),
           (cs', push_line idx (erase v ls) (Line_new a (get_tag c a)) c', [], lower))"
    using assms(1) False v e by (simp add: allocate_line_def need_eviction_def c'_def)
  moreover have "is_last_level (push_line idx (erase v ls) (Line_new a (get_tag c a)) c')"
    using assms(2) by (simp add: c'_def)
  ultimately show ?thesis using push_line_present[of idx c' "erase v ls"] by auto
qed

lemma send_here_fresh_single:
  assumes "\<not> hits c (Request.addr req)" and "\<not> merges c (Request.addr req)" and "\<not> mshr_full c"
    and "\<not> all_sets_locked c (target_set c (Request.addr req))"
    and "find_if (tag_match c (Request.addr req)) (target_set c (Request.addr req)) = None"
    and "\<not> no_victim c [] (Request.addr req)" and "is_last_level c"
  shows "\<exists>r cs' c' lo. send_here lat req (cs, c, [], lower) = Inr (True, Some r, (cs', c', [], lo)) \<and>
           is_last_level c'"
proof -
  define c1 where "c1 = fst (get_lines (count_access req c) (Request.addr req))"
  note s2 = same_shape_simps[OF shape2[OF c1_def]]
  have as: "assoc c1 = assoc c" "is_last_level c1 = is_last_level c" by (simp_all add: c1_def)
  have "\<exists>cs' c' n. allocate_line lat (get_index c (Request.addr req)) (target_set c (Request.addr req))
          (Request.addr req) (cs, count_miss req c1, [], lower) =
            Inr (Some (get_index c (Request.addr req), n), (cs', c', [], lower)) \<and>
          node_present (get_index c (Request.addr req), n) c' \<and> is_last_level c'"
    using assms(5,6,7) by (intro allocate_line_single) (simp_all add: s2 as no_victim_def)
  then obtain cs' c' n where
    al: "allocate_line lat (get_index c (Request.addr req)) (target_set c (Request.addr req))
          (Request.addr req) (cs, count_miss req c1, [], lower) =
            Inr (Some (get_index c (Request.addr req), n), (cs', c', [], lower))"
    and np: "node_present (get_index c (Request.addr req), n) c'" and ll: "is_last_level c'"
    by blast
  from update_node_present[OF np, of c' "\<lambda>l. l\<lparr>dirty := (Request.type req = WRITE)\<rparr>"]
  obtain c4 where u: "update_node (get_index c (Request.addr req), n)
                         (\<lambda>l. l\<lparr>dirty := (Request.type req = WRITE)\<rparr>) c' = Some c4"
    by auto
  have "is_last_level c4" using update_node_last[OF u] ll by simp
  then show ?thesis using assms(2,3,4) al u
    by (simp add: send_here_miss[OF assms(1)] Let_def merges_def c1_def)
qed

lemma send_fresh_single:
  assumes "\<not> hits c (Request.addr req)" and "\<not> merges c (Request.addr req)" and "\<not> mshr_full c"
    and "\<not> all_sets_locked c (target_set c (Request.addr req))"
    and "find_if (tag_match c (Request.addr req)) (target_set c (Request.addr req)) = None"
    and "\<not> no_victim c [] (Request.addr req)" and "is_last_level c"
  shows "\<exists>v'. send lat req (cs, c, [], ctx) = Inr (True, v')"
proof -
  from send_here_fresh_single[OF assms, of lat cs "lower_of ctx"]
  obtain r cs' c' lo where
    h: "send_here lat req (cs, c, [], lower_of ctx) = Inr (True, Some r, (cs', c', [], lo))"
    and l: "is_last_level c'" by blast
  show ?thesis
  proof (cases ctx)
    case Nil
    then show ?thesis using h l by simp
  next
    case (Cons fr ctx')
    obtain lc ls rs where fr: "fr = (lc, ls, rs)" by (cases fr) auto
    show ?thesis using h l Cons fr by simp
  qed
qed

lemma fst_Inr: "map_sum id fst x = Inr b \<Longrightarrow> \<exists>v. x = Inr (b, v)"
  by (cases x) auto

lemma Inr_fst: "x = Inr (b, v) \<Longrightarrow> map_sum id fst x = Inr b"
  by simp

text \<open>No function of the cache changes the wiring.\<close>

lemma invalidate_wiring:
  "invalidate lat a h = Inr (r, h') \<Longrightarrow> wiring h' = wiring h"
  "invalidate_higher lat a delay ld hs acc = Inr (r', hs') \<Longrightarrow> map wiring hs' = map wiring hs"
proof (induction lat a h and lat a delay ld hs acc arbitrary: r h' and r' hs'
       rule: invalidate_invalidate_higher.induct)
  case (1 lat a c hs)
  obtain c1 lines where g: "get_lines c a = (c1, lines)" by (cases "get_lines c a")
  show ?case
  proof (cases "length lines = 0")
    case True
    with "1.prems" g show ?thesis by (auto simp add: Let_def)
  next
    case False
    note ne = this
    show ?thesis
    proof (cases "find_if (tag_match c a) lines")
      case None
      with "1.prems" g ne show ?thesis by (auto simp add: Let_def)
    next
      case (Some i)
      note fi = this
      show ?thesis
      proof (cases "lock (snd (lines ! i))")
        case True
        with "1.prems" g ne fi show ?thesis by (auto simp add: Let_def)
      next
        case False
        note nl = this
        show ?thesis
        proof (cases "hs = []")
          case True
          with "1.prems" g ne fi nl show ?thesis by (auto simp add: Let_def)
        next
          case False
          with "1.prems" g ne fi nl obtain hs'' where
            j: "invalidate_higher lat a (latency_each lat (level c)) (dirty (snd (lines ! i))) hs
                  (latency_each lat (level c), False) = Inr (r, hs'')"
            and h': "h' = Hier (put_lines (get_index c a) (erase i lines) c1) hs''"
            by (auto simp add: Let_def simp del: invalidate_higher.simps split: sum.splits)
          from "1.IH"[OF refl g[symmetric] ne fi nl refl refl False j]
          show ?thesis using h' by simp
        qed
      qed
    qed
  qed
next
  case (2 lat a delay ld acc)
  then show ?case by simp
next
  case (3 lat a delay ld hc rest acc)
  from "3.prems" obtain result hc' where i: "invalidate lat a hc = Inr (result, hc')"
    by (auto simp del: invalidate.simps split: sum.splits)
  with "3.prems" obtain rest' where
    j: "invalidate_higher lat a delay ld rest
          (if snd result then max (fst acc) (delay + fst result * 2)
           else max (fst acc) (delay + fst result), snd acc \<or> ld \<or> snd result) = Inr (r', rest')"
    and hs': "hs' = hc' # rest'"
    by (auto simp del: invalidate.simps split: sum.splits)
  from "3.IH"(1)[OF i] have "wiring hc' = wiring hc" .
  moreover from "3.IH"(2)[OF i refl j] have "map wiring rest' = map wiring rest" .
  ultimately show ?case using hs' by simp
qed


lemma evict_invalidate_wiring:
  "evict_invalidate lat lv a vd hs acc = Inr (r, hs') \<Longrightarrow> map wiring hs' = map wiring hs"
proof (induction hs arbitrary: acc r hs')
  case Nil
  then show ?case by simp
next
  case (Cons hc rest)
  from Cons.prems obtain result hc' where i: "invalidate lat a hc = Inr (result, hc')"
    by (auto simp del: invalidate.simps split: sum.splits)
  with Cons.prems obtain rest' where
    j: "evict_invalidate lat lv a vd rest
          (max (fst acc) (fst result + (if snd result then latency_each lat lv else 0)),
           snd acc \<or> snd result \<or> vd) = Inr (r, rest')"
    and hs': "hs' = hc' # rest'"
    by (auto simp del: invalidate.simps split: sum.splits)
  from invalidate_wiring(1)[OF i] Cons.IH[OF j] hs' show ?case by simp
qed

lemma put_lines_last [simp]: "is_last_level (put_lines idx ls c) = is_last_level c"
  by (simp add: put_lines_def)

lemma evict_frame:
  assumes "evict lat idx ls v (cs, c, hs, lower) = Inr (cs', c', hs', lower')"
  shows "map wiring hs' = map wiring hs \<and> is_last_level c' = is_last_level c \<and>
         (lower' = None \<longleftrightarrow> lower = None)"
proof -
  from assms obtain t d where
    e: "evict_invalidate lat (level c) (addr (snd (ls ! v))) (dirty (snd (ls ! v))) hs
          (0, dirty (snd (ls ! v))) = Inr ((t, d), hs')"
    by (auto simp: evict_def Let_def split: sum.splits prod.splits if_splits option.splits)
  from evict_invalidate_wiring[OF e] have "map wiring hs' = map wiring hs" .
  moreover from assms have "is_last_level c' = is_last_level c \<and> (lower' = None \<longleftrightarrow> lower = None)"
    by (auto simp: evict_def Let_def split: sum.splits prod.splits if_splits option.splits)
  ultimately show ?thesis by simp
qed

lemma allocate_line_frame:
  assumes "allocate_line lat idx ls a (cs, c, hs, lower) = Inr (r, (cs', c', hs', lower'))"
  shows "map wiring hs' = map wiring hs \<and> is_last_level c' = is_last_level c \<and>
         (lower' = None \<longleftrightarrow> lower = None) \<and> (\<forall>it. r = Some it \<longrightarrow> node_present it c')"
proof (cases "need_eviction c ls a")
  case (Inl f)
  with assms show ?thesis by (simp add: allocate_line_def)
next
  case (Inr ne)
  show ?thesis
  proof (cases ne)
    case False
    with Inr assms show ?thesis
      using push_line_present[of idx c ls "Line_new a (get_tag c a)"]
      by (auto simp: allocate_line_def)
  next
    case True
    note ne = this
    show ?thesis
    proof (cases "find_if (victim_ok c hs) ls")
      case None
      with Inr ne assms show ?thesis by (auto simp: allocate_line_def)
    next
      case (Some victim)
      with Inr ne assms obtain cs1 c1 hs1 lo1 where
        e: "evict lat idx ls victim (cs, c, hs, lower) = Inr (cs1, c1, hs1, lo1)"
        and r: "r = Some (idx, next_node c1)" "cs' = cs1"
          "c' = push_line idx (erase victim ls) (Line_new a (get_tag c a)) c1"
          "hs' = hs1" "lower' = lo1"
        by (auto simp: allocate_line_def split: sum.splits prod.splits)
      from evict_frame[OF e] r push_line_present[of idx c1 "erase victim ls" "Line_new a (get_tag c a)"]
      show ?thesis by auto
    qed
  qed
qed


lemma send_here_hit_frame:
  assumes "hits c (Request.addr req)"
  shows "\<exists>cs' c'. send_here lat req (cs, c, hs, lower) = Inr (True, None, (cs', c', hs, lower)) \<and>
           is_last_level c' = is_last_level c"
proof -
  define c1 where "c1 = fst (get_lines (count_access req c) (Request.addr req))"
  note gl = get_lines_pair[OF c1_def] and s1 = same_shape_simps[OF shape1[OF c1_def]]
  have l: "is_last_level c1 = is_last_level c" by (simp add: c1_def count_access_def Let_def)
  from assms obtain pos where "is_hit c (target_set c (Request.addr req)) (Request.addr req) = (Some pos, True)"
    by (auto simp: hits_def is_hit_def split: option.splits)
  then show ?thesis
    by (simp add: send_here_def Let_def gl s1 l)
qed

lemma count_last [simp]:
  "is_last_level (count_access req c) = is_last_level c"
  "is_last_level (count_miss req c) = is_last_level c"
  by (simp_all add: count_access_def count_miss_def Let_def)

lemma send_here_frame:
  assumes "send_here lat req (cs, c, hs, lower) = Inr (b, fwd, (cs1, c1, hs1, lo1))"
  shows "map wiring hs1 = map wiring hs \<and> is_last_level c1 = is_last_level c \<and>
         (lo1 = None \<longleftrightarrow> lower = None)"
proof (cases "hits c (Request.addr req)")
  case True
  from send_here_hit_frame[OF True, of lat cs hs lower] assms show ?thesis by auto
next
  case False
  define c2 where "c2 = count_miss req (fst (get_lines (count_access req c) (Request.addr req)))"
  have l2: "is_last_level c2 = is_last_level c" by (simp add: c2_def)
  note m = assms[unfolded send_here_miss[OF False], unfolded Let_def, folded c2_def]
  show ?thesis
  proof (cases "hit_mshr c (Request.addr req)")
    case (Some m')
    with m show ?thesis using l2
      by (auto split: option.splits dest: update_node_last)
  next
    case None
    note nm = this
    show ?thesis
    proof (cases "mshr_full c \<or> all_sets_locked c (target_set c (Request.addr req))")
      case True
      with m nm show ?thesis using l2 by (auto split: if_splits)
    next
      case False
      with m nm obtain r cs3 c3 hs3 lo3 where
        al: "allocate_line lat (get_index c (Request.addr req)) (target_set c (Request.addr req))
               (Request.addr req) (cs, c2, hs, lower) = Inr (r, (cs3, c3, hs3, lo3))"
        by (auto split: sum.splits)
      note fr = allocate_line_frame[OF al]
      show ?thesis
      proof (cases r)
        case None
        with m nm False al fr l2 show ?thesis by auto
      next
        case (Some newline)
        with m nm False al fr l2 show ?thesis
          by (auto split: option.splits dest: update_node_last)
      qed
    qed
  qed
qed


lemma wiring_Hier: "wiring h = Wired ws \<Longrightarrow> \<exists>c hs. h = Hier c hs \<and> map wiring hs = ws"
  by (cases h) simp

lemma refocus_wired:
  assumes "map wiring chs = map wiring (ls @ Hier c hs # rs)"
  shows "\<exists>c' hs' ls' rs'. refocus (length ls) (cs, lc, chs, ctx) = Some (cs, c', hs', (lc, ls', rs') # ctx) \<and>
           map wiring hs' = map wiring hs \<and> map wiring ls' = map wiring ls \<and>
           map wiring rs' = map wiring rs"
proof -
  have "map wiring (take (length ls) chs) @ map wiring (drop (length ls) chs) = map wiring chs"
    by (simp flip: map_append)
  with assms have "map wiring (take (length ls) chs) @ map wiring (drop (length ls) chs) =
                   map wiring ls @ Wired (map wiring hs) # map wiring rs"
    by simp
  moreover from assms have "length chs = length ls + Suc (length rs)"
    using map_eq_imp_length_eq by fastforce
  ultimately have t: "map wiring (take (length ls) chs) = map wiring ls"
    and d: "map wiring (drop (length ls) chs) = Wired (map wiring hs) # map wiring rs"
    by auto
  from d obtain h rs' where dr: "drop (length ls) chs = h # rs'" and
    h: "wiring h = Wired (map wiring hs)" and rs': "map wiring rs' = map wiring rs"
    by (auto simp: map_eq_Cons_conv)
  from wiring_Hier[OF h] obtain c' hs' where "h = Hier c' hs'" "map wiring hs' = map wiring hs"
    by blast
  with dr t rs' show ?thesis by (simp add: refocus_def)
qed

lemma view_wiring_simp [simp]:
  "view_wiring (cs, c, hs, ctx) =
     (map wiring hs, map (\<lambda>fr. (map wiring (fst (snd fr)), map wiring (snd (snd fr)))) ctx)"
  by (simp add: view_wiring_def)

lemma put_lower_wiring [simp]:
  "map (\<lambda>fr. (map wiring (fst (snd fr)), map wiring (snd (snd fr)))) (put_lower lo ctx) =
   map (\<lambda>fr. (map wiring (fst (snd fr)), map wiring (snd (snd fr)))) ctx"
  by (cases "(lo, ctx)" rule: put_lower.cases) simp_all

lemma send_wiring:
  "send lat req (cs, c, hs, ctx) = Inr (b, v') \<Longrightarrow> view_wiring v' = view_wiring (cs, c, hs, ctx)"
proof (induction ctx arbitrary: req cs c hs b v')
  case Nil
  then obtain b' fwd cs1 c1 hs1 lo1 where
    h: "send_here lat req (cs, c, hs, None) = Inr (b', fwd, (cs1, c1, hs1, lo1))"
    by (auto split: sum.splits)
  from send_here_frame[OF h] Nil h show ?case
    by (auto split: option.splits if_splits)
next
  case (Cons fr ctx)
  obtain lc ls rs where fr: "fr = (lc, ls, rs)" by (cases fr) auto
  from Cons.prems fr obtain b' fwd cs1 c1 hs1 lo1 where
    h: "send_here lat req (cs, c, hs, Some lc) = Inr (b', fwd, (cs1, c1, hs1, lo1))"
    by (auto split: sum.splits)
  note f = send_here_frame[OF h]
  show ?case
  proof (cases fwd)
    case None
    with Cons.prems fr h f show ?thesis by auto
  next
    case (Some req')
    show ?thesis
    proof (cases "is_last_level c1")
      case True
      with Cons.prems fr h f Some show ?thesis by auto
    next
      case False
      from f obtain lc1 where lo1: "lo1 = Some lc1" by auto
      with Cons.prems fr h Some False obtain ok v2 where
        s: "send lat req' (cs1, lc1, ls @ Hier c1 hs1 # rs, ctx) = Inr (ok, v2)"
        by (auto split: sum.splits)
      obtain cs2 lc2 chs2 ctx2 where v2: "v2 = (cs2, lc2, chs2, ctx2)" by (cases v2) auto
      from Cons.IH[OF s] v2 have
        w: "map wiring chs2 = map wiring (ls @ Hier c1 hs1 # rs)"
        and wc: "map (\<lambda>fr. (map wiring (fst (snd fr)), map wiring (snd (snd fr)))) ctx2 =
                 map (\<lambda>fr. (map wiring (fst (snd fr)), map wiring (snd (snd fr)))) ctx"
        by simp_all
      from refocus_wired[OF w, of cs2 lc2 ctx2] obtain c' hs' ls' rs' where
        rf: "refocus (length ls) v2 = Some (cs2, c', hs', (lc2, ls', rs') # ctx2)"
        and ws: "map wiring hs' = map wiring hs1" "map wiring ls' = map wiring ls"
          "map wiring rs' = map wiring rs"
        using v2 by blast
      from Cons.prems fr h Some False lo1 s rf
      have "v' = (cs2, if \<not> ok then c'\<lparr>retry_list := retry_list c' @ [req']\<rparr> else c', hs',
                  (lc2, ls', rs') # ctx2)"
        by simp
      with ws wc f fr show ?thesis by simp
    qed
  qed
qed

text \<open>A miss that allocates: \<open>send_here\<close> reaches line 217, and \<open>send\<close> goes on from there.\<close>

lemma evict_returns_shape:
  assumes "level c' = level c" and "is_last_level c' = is_last_level c"
    and "evict lat idx ls v (cs, c, hs, lower) = Inr w"
  shows "\<exists>w'. evict lat idx ls v (cs, c', hs, lower) = Inr w'"
  using assms
  by (auto simp: evict_def Let_def split: sum.splits prod.splits if_splits option.splits)

lemma send_here_fresh:
  assumes "\<not> hits c (Request.addr req)" and "\<not> merges c (Request.addr req)"
    and "\<not> structurally_refused c hs (Request.addr req)"
    and "find_if (tag_match c (Request.addr req)) (target_set c (Request.addr req)) = None"
    and "\<And>v. \<not> length (target_set c (Request.addr req)) < assoc c \<Longrightarrow>
            find_if (victim_ok c hs) (target_set c (Request.addr req)) = Some v \<Longrightarrow>
            \<exists>w. evict lat (get_index c (Request.addr req)) (target_set c (Request.addr req)) v
                   (cs, c, hs, lower) = Inr w"
  shows "\<exists>req' v1. send_here lat req (cs, c, hs, lower) = Inr (True, Some req', v1)"
proof -
  define a where "a = Request.addr req"
  define c1 where "c1 = fst (get_lines (count_access req c) (Request.addr req))"
  define c2 where "c2 = count_miss req c1"
  note s2 = same_shape_simps[OF shape2[OF c1_def]]
  have as: "assoc c2 = assoc c" "is_last_level c2 = is_last_level c" "level c2 = level c"
    "is_first_level c2 = is_first_level c"
    by (simp_all add: c2_def c1_def count_miss_def Let_def)
  have vo: "victim_ok c2 hs = victim_ok c hs"
    by (simp add: fun_eq_iff victim_ok_def as)
  have tm: "tag_match c2 a = tag_match c a" using s2 by (simp add: c2_def a_def)
  have gt: "get_tag c2 a = get_tag c a" using s2 by (simp add: c2_def a_def)
  from assms(1-3) have nf: "\<not> mshr_full c" "\<not> all_sets_locked c (target_set c a)"
    "\<not> no_victim c hs a" and nm: "hit_mshr c a = None"
    by (auto simp: structurally_refused_def merges_def a_def)
  have "\<exists>it cs3 c3 hs3 lo3. allocate_line lat (get_index c a) (target_set c a) a (cs, c2, hs, lower) =
          Inr (Some it, (cs3, c3, hs3, lo3)) \<and> node_present it c3"
  proof (cases "length (target_set c a) < assoc c")
    case True
    then show ?thesis
      using assms(4)[folded a_def] push_line_present[of "get_index c a" c2 "target_set c a"]
      by (simp add: allocate_line_def need_eviction_def tm as)
  next
    case False
    with nf(3) obtain v where v: "find_if (victim_ok c hs) (target_set c a) = Some v"
      by (auto simp: no_victim_def)
    from assms(5)[OF False[unfolded a_def] v[unfolded a_def]] obtain w where
      "evict lat (get_index c a) (target_set c a) v (cs, c, hs, lower) = Inr w"
      by (auto simp: a_def)
    from evict_returns_shape[OF as(3) as(2) this] obtain cs' c' hs' lo' where
      e: "evict lat (get_index c a) (target_set c a) v (cs, c2, hs, lower) = Inr (cs', c', hs', lo')"
      by (metis prod_cases4)
    then show ?thesis
      using assms(4)[folded a_def] False v push_line_present[of "get_index c a" c' "erase v (target_set c a)"]
      by (simp add: allocate_line_def need_eviction_def tm as vo)
  qed
  then obtain it cs3 c3 hs3 lo3 where
    al: "allocate_line lat (get_index c a) (target_set c a) a (cs, c2, hs, lower) =
          Inr (Some it, (cs3, c3, hs3, lo3))" and np: "node_present it c3"
    by blast
  from update_node_present[OF np, of c3 "\<lambda>l. l\<lparr>dirty := (Request.type req = WRITE)\<rparr>"]
  obtain c4 where "update_node it (\<lambda>l. l\<lparr>dirty := (Request.type req = WRITE)\<rparr>) c3 = Some c4"
    by auto
  with al[unfolded c2_def c1_def a_def] nm[unfolded a_def] nf[unfolded a_def] show ?thesis
    by (simp add: send_here_miss[OF assms(1)] Let_def)
qed

lemma send_last_level:
  assumes "send_here lat req (cs, c, hs, lower_of ctx) = Inr (b, Some req', (cs1, c1, hs1, lo1))"
    and "is_last_level c"
  shows "send lat req (cs, c, hs, ctx) =
           Inr (True, (cs1\<lparr>wait_list := wait_list cs1 @
                         [(CacheSystem.clk cs1 + latency lat (level c1), req')]\<rparr>,
                       c1, hs1, put_lower lo1 ctx))"
proof -
  from send_here_frame[OF assms(1)] assms(2) have l: "is_last_level c1" by simp
  show ?thesis
  proof (cases ctx)
    case Nil
    with assms l show ?thesis by simp
  next
    case (Cons fr ctx')
    obtain lc ls rs where fr: "fr = (lc, ls, rs)" by (cases fr) auto
    with assms l Cons show ?thesis by simp
  qed
qed

lemma send_forward:
  assumes "send_here lat req (cs, c, hs, Some lc) = Inr (b, Some req', (cs1, c1, hs1, lo1))"
    and "\<not> is_last_level c"
  shows "\<exists>lc1. lo1 = Some lc1 \<and>
           (\<forall>ok v2. send lat req' (cs1, lc1, ls @ Hier c1 hs1 # rs, ctx) = Inr (ok, v2) \<longrightarrow>
              (\<exists>cs2 c2 hs2 ctx2. refocus (length ls) v2 = Some (cs2, c2, hs2, ctx2) \<and>
                 send lat req (cs, c, hs, (lc, ls, rs) # ctx) =
                   Inr (True, (cs2, if \<not> ok then c2\<lparr>retry_list := retry_list c2 @ [req']\<rparr> else c2,
                               hs2, ctx2))))"
proof -
  note f = send_here_frame[OF assms(1)]
  from f assms(2) have l: "\<not> is_last_level c1" by simp
  from f obtain lc1 where lo1: "lo1 = Some lc1" by auto
  have "\<exists>cs2 c2 hs2 ctx2. refocus (length ls) v2 = Some (cs2, c2, hs2, ctx2) \<and>
                 send lat req (cs, c, hs, (lc, ls, rs) # ctx) =
                   Inr (True, (cs2, if \<not> ok then c2\<lparr>retry_list := retry_list c2 @ [req']\<rparr> else c2,
                               hs2, ctx2))"
    if s: "send lat req' (cs1, lc1, ls @ Hier c1 hs1 # rs, ctx) = Inr (ok, v2)" for ok v2
  proof -
    obtain cs2 lc2 chs2 ctx2 where v2: "v2 = (cs2, lc2, chs2, ctx2)" by (cases v2) auto
    from send_wiring[OF s] v2 have "map wiring chs2 = map wiring (ls @ Hier c1 hs1 # rs)"
      by simp
    from refocus_wired[OF this, of cs2 lc2 ctx2] obtain c' hs' ls' rs' where
      "refocus (length ls) v2 = Some (cs2, c', hs', (lc2, ls', rs') # ctx2)"
      using v2 by blast
    with assms(1) l lo1 s show ?thesis by simp
  qed
  with lo1 show ?thesis by blast
qed

text \<open>
  Claim C1. \<open>send\<close> returns true on a hit (a line with the tag that is not locked) and
  on an MSHR merge (given that the entry's iterator is valid). On a miss without a
  matching MSHR entry it returns false when the MSHR table holds \<open>mshr_entry_num\<close>
  entries, counting \<open>cache_mshr_unavailable\<close>, and otherwise when the set is full and all
  its lines are locked, counting \<open>cache_set_unavailable\<close>, and otherwise when the set is
  full and no line passes the victim test of \<open>allocate_line\<close>, with both counters and
  everything but this cache unchanged. Whenever \<open>send\<close> returns, the value is false
  exactly in these three cases. On a last-level cache without higher caches, the
  configuration of this repository, a miss that is not refused allocates and returns
  true.

  In any hierarchy, a miss that is not refused allocates and reaches the forwarding step
  (line 217) with the value true, provided no line of the set carries the tag and the
  eviction, if the set is full, trips none of its assertions. From the forwarding step,
  a last-level cache returns true and appends the request to \<open>wait_list\<close>, whatever its
  higher caches; a cache with a lower cache still has it after the allocation, and
  whenever the lower cache's \<open>send\<close> returns, with true or with false, this cache's
  \<open>send\<close> returns true, the request joining \<open>retry_list\<close> exactly when the lower cache
  returned false.
\<close>

theorem send_refusal:
  "(hits c (Request.addr req) \<longrightarrow> (\<exists>v'. send lat req (cs, c, hs, ctx) = Inr (True, v'))) \<and>
   (\<forall>m. \<not> hits c (Request.addr req) \<and> hit_mshr c (Request.addr req) = Some m \<and>
        node_present (snd (mshr_entries c ! m)) c \<longrightarrow>
        (\<exists>v'. send lat req (cs, c, hs, ctx) = Inr (True, v'))) \<and>
   (\<not> hits c (Request.addr req) \<and> \<not> merges c (Request.addr req) \<and> mshr_full c \<longrightarrow>
      (\<exists>c'. send lat req (cs, c, hs, ctx) = Inr (False, (cs, c', hs, ctx)) \<and>
            cache_mshr_unavailable c' = Suc (cache_mshr_unavailable c) \<and>
            cache_set_unavailable c' = cache_set_unavailable c)) \<and>
   (\<not> hits c (Request.addr req) \<and> \<not> merges c (Request.addr req) \<and> \<not> mshr_full c \<and>
    all_sets_locked c (target_set c (Request.addr req)) \<longrightarrow>
      (\<exists>c'. send lat req (cs, c, hs, ctx) = Inr (False, (cs, c', hs, ctx)) \<and>
            cache_set_unavailable c' = Suc (cache_set_unavailable c) \<and>
            cache_mshr_unavailable c' = cache_mshr_unavailable c)) \<and>
   (\<not> hits c (Request.addr req) \<and> \<not> merges c (Request.addr req) \<and> \<not> mshr_full c \<and>
    \<not> all_sets_locked c (target_set c (Request.addr req)) \<and>
    find_if (tag_match c (Request.addr req)) (target_set c (Request.addr req)) = None \<and>
    no_victim c hs (Request.addr req) \<longrightarrow>
      (\<exists>c'. send lat req (cs, c, hs, ctx) = Inr (False, (cs, c', hs, ctx)) \<and>
            cache_set_unavailable c' = cache_set_unavailable c \<and>
            cache_mshr_unavailable c' = cache_mshr_unavailable c)) \<and>
   (\<forall>b v'. send lat req (cs, c, hs, ctx) = Inr (b, v') \<longrightarrow>
      (\<not> b \<longleftrightarrow> structurally_refused c hs (Request.addr req))) \<and>
   (\<not> structurally_refused c [] (Request.addr req) \<and> \<not> hits c (Request.addr req) \<and>
    \<not> merges c (Request.addr req) \<and>
    find_if (tag_match c (Request.addr req)) (target_set c (Request.addr req)) = None \<and>
    is_last_level c \<longrightarrow>
      (\<exists>v'. send lat req (cs, c, [], ctx) = Inr (True, v'))) \<and>
   (\<not> hits c (Request.addr req) \<and> \<not> merges c (Request.addr req) \<and>
    \<not> structurally_refused c hs (Request.addr req) \<and>
    find_if (tag_match c (Request.addr req)) (target_set c (Request.addr req)) = None \<and>
    (\<forall>v. \<not> length (target_set c (Request.addr req)) < assoc c \<and>
         find_if (victim_ok c hs) (target_set c (Request.addr req)) = Some v \<longrightarrow>
         (\<exists>w. evict lat (get_index c (Request.addr req)) (target_set c (Request.addr req)) v
                (cs, c, hs, lower_of ctx) = Inr w)) \<longrightarrow>
      (\<exists>req' v1. send_here lat req (cs, c, hs, lower_of ctx) = Inr (True, Some req', v1))) \<and>
   (\<forall>b req' cs1 c1 hs1 lo1.
      send_here lat req (cs, c, hs, lower_of ctx) = Inr (b, Some req', (cs1, c1, hs1, lo1)) \<and>
      is_last_level c \<longrightarrow>
        send lat req (cs, c, hs, ctx) =
          Inr (True, (cs1\<lparr>wait_list := wait_list cs1 @
                        [(CacheSystem.clk cs1 + latency lat (level c1), req')]\<rparr>,
                      c1, hs1, put_lower lo1 ctx))) \<and>
   (\<forall>b req' cs1 c1 hs1 lo1 lc ls rs ctx'.
      ctx = (lc, ls, rs) # ctx' \<and>
      send_here lat req (cs, c, hs, Some lc) = Inr (b, Some req', (cs1, c1, hs1, lo1)) \<and>
      \<not> is_last_level c \<longrightarrow>
        (\<exists>lc1. lo1 = Some lc1 \<and>
           (\<forall>ok v2. send lat req' (cs1, lc1, ls @ Hier c1 hs1 # rs, ctx') = Inr (ok, v2) \<longrightarrow>
              (\<exists>cs2 c2 hs2 ctx2. refocus (length ls) v2 = Some (cs2, c2, hs2, ctx2) \<and>
                 send lat req (cs, c, hs, ctx) =
                   Inr (True, (cs2, if \<not> ok then c2\<lparr>retry_list := retry_list c2 @ [req']\<rparr> else c2,
                               hs2, ctx2))))))"
proof (intro conjI allI impI)
  assume "hits c (Request.addr req)"
  from send_here_hit[OF this, of lat cs hs "lower_of ctx"]
  obtain cs1 c1 hs1 lo1 where
    "send_here lat req (cs, c, hs, lower_of ctx) = Inr (True, None, (cs1, c1, hs1, lo1))"
    by (metis prod_cases4)
  from send_no_forward[OF this] show "\<exists>v'. send lat req (cs, c, hs, ctx) = Inr (True, v')"
    by blast
next
  fix m
  assume "\<not> hits c (Request.addr req) \<and> hit_mshr c (Request.addr req) = Some m \<and>
        node_present (snd (mshr_entries c ! m)) c"
  then have "\<exists>v'. send_here lat req (cs, c, hs, lower_of ctx) = Inr (True, None, v')"
    by (intro send_here_merge) auto
  then obtain cs1 c1 hs1 lo1 where
    "send_here lat req (cs, c, hs, lower_of ctx) = Inr (True, None, (cs1, c1, hs1, lo1))"
    by (metis prod_cases4)
  from send_no_forward[OF this] show "\<exists>v'. send lat req (cs, c, hs, ctx) = Inr (True, v')"
    by blast
next
  assume "\<not> hits c (Request.addr req) \<and> \<not> merges c (Request.addr req) \<and> mshr_full c"
  then obtain c' where h: "send_here lat req (cs, c, hs, lower_of ctx) =
        Inr (False, None, (cs, c', hs, lower_of ctx))"
    and s: "cache_mshr_unavailable c' = Suc (cache_mshr_unavailable c)"
           "cache_set_unavailable c' = cache_set_unavailable c"
    using send_here_mshr_full[of c req lat cs hs "lower_of ctx"] by blast
  from send_no_forward[OF h] s
  show "\<exists>c'. send lat req (cs, c, hs, ctx) = Inr (False, (cs, c', hs, ctx)) \<and>
            cache_mshr_unavailable c' = Suc (cache_mshr_unavailable c) \<and>
            cache_set_unavailable c' = cache_set_unavailable c"
    by auto
next
  assume "\<not> hits c (Request.addr req) \<and> \<not> merges c (Request.addr req) \<and> \<not> mshr_full c \<and>
    all_sets_locked c (target_set c (Request.addr req))"
  then obtain c' where h: "send_here lat req (cs, c, hs, lower_of ctx) =
        Inr (False, None, (cs, c', hs, lower_of ctx))"
    and s: "cache_set_unavailable c' = Suc (cache_set_unavailable c)"
           "cache_mshr_unavailable c' = cache_mshr_unavailable c"
    using send_here_set_locked[of c req lat cs hs "lower_of ctx"] by blast
  from send_no_forward[OF h] s
  show "\<exists>c'. send lat req (cs, c, hs, ctx) = Inr (False, (cs, c', hs, ctx)) \<and>
            cache_set_unavailable c' = Suc (cache_set_unavailable c) \<and>
            cache_mshr_unavailable c' = cache_mshr_unavailable c"
    by auto
next
  assume "\<not> hits c (Request.addr req) \<and> \<not> merges c (Request.addr req) \<and> \<not> mshr_full c \<and>
    \<not> all_sets_locked c (target_set c (Request.addr req)) \<and>
    find_if (tag_match c (Request.addr req)) (target_set c (Request.addr req)) = None \<and>
    no_victim c hs (Request.addr req)"
  then obtain c' where h: "send_here lat req (cs, c, hs, lower_of ctx) =
        Inr (False, None, (cs, c', hs, lower_of ctx))"
    and s: "cache_set_unavailable c' = cache_set_unavailable c"
           "cache_mshr_unavailable c' = cache_mshr_unavailable c"
    using send_here_no_victim[of c req hs lat cs "lower_of ctx"] by blast
  from send_no_forward[OF h] s
  show "\<exists>c'. send lat req (cs, c, hs, ctx) = Inr (False, (cs, c', hs, ctx)) \<and>
            cache_set_unavailable c' = cache_set_unavailable c \<and>
            cache_mshr_unavailable c' = cache_mshr_unavailable c"
    by auto
next
  fix b v'
  assume "send lat req (cs, c, hs, ctx) = Inr (b, v')"
  from send_via_here[OF this] obtain fwd lv where
    "send_here lat req (cs, c, hs, lower_of ctx) = Inr (b, fwd, lv)" by blast
  from send_here_result[OF this]
  show "(\<not> b) = structurally_refused c hs (Request.addr req)" by simp
next
  assume "\<not> structurally_refused c [] (Request.addr req) \<and> \<not> hits c (Request.addr req) \<and>
    \<not> merges c (Request.addr req) \<and>
    find_if (tag_match c (Request.addr req)) (target_set c (Request.addr req)) = None \<and>
    is_last_level c"
  then show "\<exists>v'. send lat req (cs, c, [], ctx) = Inr (True, v')"
    by (intro send_fresh_single) (auto simp: structurally_refused_def)
next
  assume "\<not> hits c (Request.addr req) \<and> \<not> merges c (Request.addr req) \<and>
    \<not> structurally_refused c hs (Request.addr req) \<and>
    find_if (tag_match c (Request.addr req)) (target_set c (Request.addr req)) = None \<and>
    (\<forall>v. \<not> length (target_set c (Request.addr req)) < assoc c \<and>
         find_if (victim_ok c hs) (target_set c (Request.addr req)) = Some v \<longrightarrow>
         (\<exists>w. evict lat (get_index c (Request.addr req)) (target_set c (Request.addr req)) v
                (cs, c, hs, lower_of ctx) = Inr w))"
  then show "\<exists>req' v1. send_here lat req (cs, c, hs, lower_of ctx) = Inr (True, Some req', v1)"
    by (intro send_here_fresh) blast+
next
  fix b req' cs1 c1 hs1 lo1
  assume "send_here lat req (cs, c, hs, lower_of ctx) = Inr (b, Some req', (cs1, c1, hs1, lo1)) \<and>
      is_last_level c"
  then show "send lat req (cs, c, hs, ctx) =
          Inr (True, (cs1\<lparr>wait_list := wait_list cs1 @
                        [(CacheSystem.clk cs1 + latency lat (level c1), req')]\<rparr>,
                      c1, hs1, put_lower lo1 ctx))"
    using send_last_level by blast
next
  fix b req' cs1 c1 hs1 lo1 lc ls rs ctx'
  assume a: "ctx = (lc, ls, rs) # ctx' \<and>
      send_here lat req (cs, c, hs, Some lc) = Inr (b, Some req', (cs1, c1, hs1, lo1)) \<and>
      \<not> is_last_level c"
  then have "send_here lat req (cs, c, hs, Some lc) = Inr (b, Some req', (cs1, c1, hs1, lo1))"
    and "\<not> is_last_level c" by simp_all
  from send_forward[OF this, of ls rs ctx'] a
  show "\<exists>lc1. lo1 = Some lc1 \<and>
           (\<forall>ok v2. send lat req' (cs1, lc1, ls @ Hier c1 hs1 # rs, ctx') = Inr (ok, v2) \<longrightarrow>
              (\<exists>cs2 c2 hs2 ctx2. refocus (length ls) v2 = Some (cs2, c2, hs2, ctx2) \<and>
                 send lat req (cs, c, hs, ctx) =
                   Inr (True, (cs2, if \<not> ok then c2\<lparr>retry_list := retry_list c2 @ [req']\<rparr> else c2,
                               hs2, ctx2))))"
    by simp
qed

text \<open>
  One input for each case: a hit, an MSHR merge, a full MSHR table, a locked-out set,
  an L2 whose only line is locked in the L1 above it, and a cold miss on the empty L3;
  then a last-level L3 that evicts below an L2, the empty L2 forwarding to the empty L3,
  which accepts, and the empty L2 forwarding to an L3 that refuses.
\<close>

theorem send_refusal_witness:
  "map_sum id fst (send lat_example (Request_new 0 READ) (cs_example, cache_L3_resident, [], [])) = Inr True \<and>
   map_sum id fst (send lat_example (Request_new 32 WRITE) (cs_example, cache_L3_miss, [], [])) = Inr True \<and>
   map_sum id fst (send lat_example (Request_new 4096 READ)
      (cs_example, cache_L3_miss\<lparr>mshr_entry_num := 1\<rparr>, [], [])) = Inr False \<and>
   map_sum id fst (send lat_example (Request_new 4096 READ)
      (cs_example, cache_L3_miss\<lparr>assoc := 1\<rparr>, [], [])) = Inr False \<and>
   map_sum id fst (send lat_example (Request_new 64 READ)
      (cs_example, cache_L2_below, [Hier cache_L1_miss []], [(cache_L3_resident, [], [])])) = Inr False \<and>
   map_sum id fst (send lat_example (Request_new 0 READ) (cs_example, cache_L3, [], [])) = Inr True \<and>
   map_sum id fst (send lat_example (Request_new 4096 READ)
      (cs_example, cache_L3_one_way, [Hier cache_L2_dirty []], [])) = Inr True \<and>
   map_sum id fst (send lat_example (Request_new 0 READ)
      (cs_example, cache_L2_empty, [], [(cache_L3_below, [], [])])) = Inr True \<and>
   map_sum id fst (send lat_example (Request_new 4096 READ)
      (cs_example, cache_L2_empty, [], [(cache_L3_below_full, [], [])])) = Inr True"
proof -
  have 1: "hits cache_L3_resident (Request.addr (Request_new 0 READ))" by code_simp
  have 2: "\<not> hits cache_L3_miss (Request.addr (Request_new 32 WRITE)) \<and>
           hit_mshr cache_L3_miss (Request.addr (Request_new 32 WRITE)) = Some 0 \<and>
           node_present (snd (mshr_entries cache_L3_miss ! 0)) cache_L3_miss"
    by code_simp
  have 3: "\<not> hits (cache_L3_miss\<lparr>mshr_entry_num := 1\<rparr>) (Request.addr (Request_new 4096 READ)) \<and>
           \<not> merges (cache_L3_miss\<lparr>mshr_entry_num := 1\<rparr>) (Request.addr (Request_new 4096 READ)) \<and>
           mshr_full (cache_L3_miss\<lparr>mshr_entry_num := 1\<rparr>)"
    by code_simp
  have 4: "\<not> hits (cache_L3_miss\<lparr>assoc := 1\<rparr>) (Request.addr (Request_new 4096 READ)) \<and>
           \<not> merges (cache_L3_miss\<lparr>assoc := 1\<rparr>) (Request.addr (Request_new 4096 READ)) \<and>
           \<not> mshr_full (cache_L3_miss\<lparr>assoc := 1\<rparr>) \<and>
           all_sets_locked (cache_L3_miss\<lparr>assoc := 1\<rparr>)
             (target_set (cache_L3_miss\<lparr>assoc := 1\<rparr>) (Request.addr (Request_new 4096 READ)))"
    by code_simp
  have 5: "\<not> hits cache_L2_below (Request.addr (Request_new 64 READ)) \<and>
           \<not> merges cache_L2_below (Request.addr (Request_new 64 READ)) \<and>
           \<not> mshr_full cache_L2_below \<and>
           \<not> all_sets_locked cache_L2_below
               (target_set cache_L2_below (Request.addr (Request_new 64 READ))) \<and>
           find_if (tag_match cache_L2_below (Request.addr (Request_new 64 READ)))
             (target_set cache_L2_below (Request.addr (Request_new 64 READ))) = None \<and>
           no_victim cache_L2_below [Hier cache_L1_miss []] (Request.addr (Request_new 64 READ))"
    by code_simp
  have 6: "\<not> structurally_refused cache_L3 [] (Request.addr (Request_new 0 READ)) \<and>
           \<not> hits cache_L3 (Request.addr (Request_new 0 READ)) \<and>
           \<not> merges cache_L3 (Request.addr (Request_new 0 READ)) \<and>
           find_if (tag_match cache_L3 (Request.addr (Request_new 0 READ)))
             (target_set cache_L3 (Request.addr (Request_new 0 READ))) = None \<and>
           is_last_level cache_L3"
    by code_simp
  note T = send_refusal[where lat = lat_example and cs = cs_example]
  from T[where c = cache_L3_resident and req = "Request_new 0 READ" and hs = "[]" and ctx = "[]",
         THEN conjunct1, rule_format, OF 1]
  have a: "map_sum id fst (send lat_example (Request_new 0 READ)
             (cs_example, cache_L3_resident, [], [])) = Inr True"
    by (elim exE) (rule Inr_fst)
  from T[where c = cache_L3_miss and req = "Request_new 32 WRITE" and hs = "[]" and ctx = "[]",
         THEN conjunct2, THEN conjunct1, rule_format, OF 2]
  have b: "map_sum id fst (send lat_example (Request_new 32 WRITE)
             (cs_example, cache_L3_miss, [], [])) = Inr True"
    by (elim exE) (rule Inr_fst)
  from T[where c = "cache_L3_miss\<lparr>mshr_entry_num := 1\<rparr>" and req = "Request_new 4096 READ"
           and hs = "[]" and ctx = "[]",
         THEN conjunct2, THEN conjunct2, THEN conjunct1, rule_format, OF 3]
  have c: "map_sum id fst (send lat_example (Request_new 4096 READ)
      (cs_example, cache_L3_miss\<lparr>mshr_entry_num := 1\<rparr>, [], [])) = Inr False"
    by (elim exE conjE) (rule Inr_fst)
  from T[where c = "cache_L3_miss\<lparr>assoc := 1\<rparr>" and req = "Request_new 4096 READ"
           and hs = "[]" and ctx = "[]",
         THEN conjunct2, THEN conjunct2, THEN conjunct2, THEN conjunct1, rule_format, OF 4]
  have d: "map_sum id fst (send lat_example (Request_new 4096 READ)
      (cs_example, cache_L3_miss\<lparr>assoc := 1\<rparr>, [], [])) = Inr False"
    by (elim exE conjE) (rule Inr_fst)
  from T[where c = cache_L2_below and req = "Request_new 64 READ"
           and hs = "[Hier cache_L1_miss []]" and ctx = "[(cache_L3_resident, [], [])]",
         THEN conjunct2, THEN conjunct2, THEN conjunct2, THEN conjunct2, THEN conjunct1,
         rule_format, OF 5]
  have e: "map_sum id fst (send lat_example (Request_new 64 READ)
      (cs_example, cache_L2_below, [Hier cache_L1_miss []], [(cache_L3_resident, [], [])])) = Inr False"
    by (elim exE conjE) (rule Inr_fst)
  from T[where c = cache_L3 and req = "Request_new 0 READ" and hs = "[]" and ctx = "[]",
         THEN conjunct2, THEN conjunct2, THEN conjunct2, THEN conjunct2, THEN conjunct2,
         THEN conjunct2, THEN conjunct1, rule_format, OF 6]
  have f: "map_sum id fst (send lat_example (Request_new 0 READ) (cs_example, cache_L3, [], [])) = Inr True"
    by (elim exE) (rule Inr_fst)
  have p7: "\<not> hits cache_L3_one_way (Request.addr (Request_new 4096 READ)) \<and>
           \<not> merges cache_L3_one_way (Request.addr (Request_new 4096 READ)) \<and>
           \<not> structurally_refused cache_L3_one_way [Hier cache_L2_dirty []]
               (Request.addr (Request_new 4096 READ)) \<and>
           find_if (tag_match cache_L3_one_way (Request.addr (Request_new 4096 READ)))
             (target_set cache_L3_one_way (Request.addr (Request_new 4096 READ))) = None"
    by code_simp
  have p7a: "find_if (victim_ok cache_L3_one_way [Hier cache_L2_dirty []])
              (target_set cache_L3_one_way (Request.addr (Request_new 4096 READ))) = Some 0"
    by code_simp
  have "(case evict lat_example (get_index cache_L3_one_way (Request.addr (Request_new 4096 READ)))
                (target_set cache_L3_one_way (Request.addr (Request_new 4096 READ))) 0
                (cs_example, cache_L3_one_way, [Hier cache_L2_dirty []], lower_of [])
         of Inl f \<Rightarrow> False | Inr w \<Rightarrow> True)"
    by code_simp
  then have p7b: "\<exists>w. evict lat_example (get_index cache_L3_one_way (Request.addr (Request_new 4096 READ)))
                (target_set cache_L3_one_way (Request.addr (Request_new 4096 READ))) 0
                (cs_example, cache_L3_one_way, [Hier cache_L2_dirty []], lower_of []) = Inr w"
    by (auto split: sum.splits)
  have p7c: "is_last_level cache_L3_one_way" by code_simp
  from T[where c = cache_L3_one_way and req = "Request_new 4096 READ"
           and hs = "[Hier cache_L2_dirty []]" and ctx = "[]",
         THEN conjunct2, THEN conjunct2, THEN conjunct2, THEN conjunct2, THEN conjunct2,
         THEN conjunct2, THEN conjunct2, THEN conjunct1, rule_format] p7 p7a p7b
  obtain r7 cs7 c7 hs7 lo7 where
    h7: "send_here lat_example (Request_new 4096 READ)
           (cs_example, cache_L3_one_way, [Hier cache_L2_dirty []], lower_of []) =
         Inr (True, Some r7, (cs7, c7, hs7, lo7))"
    by (metis option.inject prod_cases4)
  from T[where c = cache_L3_one_way and req = "Request_new 4096 READ"
           and hs = "[Hier cache_L2_dirty []]" and ctx = "[]",
         THEN conjunct2, THEN conjunct2, THEN conjunct2, THEN conjunct2, THEN conjunct2,
         THEN conjunct2, THEN conjunct2, THEN conjunct2, THEN conjunct1, rule_format,
         OF conjI[OF h7 p7c]]
  have g: "map_sum id fst (send lat_example (Request_new 4096 READ)
      (cs_example, cache_L3_one_way, [Hier cache_L2_dirty []], [])) = Inr True"
    by (rule Inr_fst)
  have p8: "\<not> hits cache_L2_empty (Request.addr (Request_new 0 READ)) \<and>
           \<not> merges cache_L2_empty (Request.addr (Request_new 0 READ)) \<and>
           \<not> structurally_refused cache_L2_empty [] (Request.addr (Request_new 0 READ)) \<and>
           find_if (tag_match cache_L2_empty (Request.addr (Request_new 0 READ)))
             (target_set cache_L2_empty (Request.addr (Request_new 0 READ))) = None"
    by code_simp
  have p8a: "length (target_set cache_L2_empty (Request.addr (Request_new 0 READ))) < assoc cache_L2_empty"
    by code_simp
  have p8c: "\<not> is_last_level cache_L2_empty" by code_simp
  from T[where c = cache_L2_empty and req = "Request_new 0 READ"
           and hs = "[]" and ctx = "[(cache_L3_below, [], [])]",
         THEN conjunct2, THEN conjunct2, THEN conjunct2, THEN conjunct2, THEN conjunct2,
         THEN conjunct2, THEN conjunct2, THEN conjunct1, rule_format] p8 p8a
  obtain r8 cs8 c8 hs8 lo8 where
    h8: "send_here lat_example (Request_new 0 READ)
           (cs_example, cache_L2_empty, [], Some cache_L3_below) =
         Inr (True, Some r8, (cs8, c8, hs8, lo8))"
    by (metis lower_of.simps(2) prod_cases4)
  from T[where c = cache_L2_empty and req = "Request_new 0 READ"
           and hs = "[]" and ctx = "[(cache_L3_below, [], [])]",
         THEN conjunct2, THEN conjunct2, THEN conjunct2, THEN conjunct2, THEN conjunct2,
         THEN conjunct2, THEN conjunct2, THEN conjunct2, THEN conjunct2, rule_format,
         OF conjI[OF refl conjI[OF h8 p8c]]]
  obtain lc8 where lo8: "lo8 = Some lc8" and
    f8: "\<And>ok v2. send lat_example r8 (cs8, lc8, [] @ Hier c8 hs8 # [], []) = Inr (ok, v2) \<Longrightarrow>
           \<exists>cs2 c2 hs2 ctx2. refocus (length ([] :: Hierarchy list)) v2 = Some (cs2, c2, hs2, ctx2) \<and>
             send lat_example (Request_new 0 READ)
               (cs_example, cache_L2_empty, [], [(cache_L3_below, [], [])]) =
             Inr (True, (cs2, if \<not> ok then c2\<lparr>retry_list := retry_list c2 @ [r8]\<rparr> else c2, hs2, ctx2))"
    by blast
  have "(case send_here lat_example (Request_new 0 READ)
                (cs_example, cache_L2_empty, [], Some cache_L3_below) of
           Inr (b, Some r, (cs1, c1, hs1, Some lc1)) \<Rightarrow>
             map_sum id fst (send lat_example r (cs1, lc1, [] @ Hier c1 hs1 # [], []))
         | _ \<Rightarrow> Inl NotWired) = Inr True"
    by code_simp
  with h8 lo8 have "map_sum id fst (send lat_example r8 (cs8, lc8, [] @ Hier c8 hs8 # [], [])) = Inr True"
    by simp
  from fst_Inr[OF this] obtain v8 where
    "send lat_example r8 (cs8, lc8, [] @ Hier c8 hs8 # [], []) = Inr (True, v8)" ..
  from f8[OF this]
  have h: "map_sum id fst (send lat_example (Request_new 0 READ)
      (cs_example, cache_L2_empty, [], [(cache_L3_below, [], [])])) = Inr True"
    by (elim exE conjE) (rule Inr_fst)
  have p9: "\<not> hits cache_L2_empty (Request.addr (Request_new 4096 READ)) \<and>
           \<not> merges cache_L2_empty (Request.addr (Request_new 4096 READ)) \<and>
           \<not> structurally_refused cache_L2_empty [] (Request.addr (Request_new 4096 READ)) \<and>
           find_if (tag_match cache_L2_empty (Request.addr (Request_new 4096 READ)))
             (target_set cache_L2_empty (Request.addr (Request_new 4096 READ))) = None"
    by code_simp
  have p9a: "length (target_set cache_L2_empty (Request.addr (Request_new 4096 READ))) < assoc cache_L2_empty"
    by code_simp
  have p9c: "\<not> is_last_level cache_L2_empty" by code_simp
  from T[where c = cache_L2_empty and req = "Request_new 4096 READ"
           and hs = "[]" and ctx = "[(cache_L3_below_full, [], [])]",
         THEN conjunct2, THEN conjunct2, THEN conjunct2, THEN conjunct2, THEN conjunct2,
         THEN conjunct2, THEN conjunct2, THEN conjunct1, rule_format] p9 p9a
  obtain r9 cs9 c9 hs9 lo9 where
    h9: "send_here lat_example (Request_new 4096 READ)
           (cs_example, cache_L2_empty, [], Some cache_L3_below_full) =
         Inr (True, Some r9, (cs9, c9, hs9, lo9))"
    by (metis lower_of.simps(2) prod_cases4)
  from T[where c = cache_L2_empty and req = "Request_new 4096 READ"
           and hs = "[]" and ctx = "[(cache_L3_below_full, [], [])]",
         THEN conjunct2, THEN conjunct2, THEN conjunct2, THEN conjunct2, THEN conjunct2,
         THEN conjunct2, THEN conjunct2, THEN conjunct2, THEN conjunct2, rule_format,
         OF conjI[OF refl conjI[OF h9 p9c]]]
  obtain lc9 where lo9: "lo9 = Some lc9" and
    f9: "\<And>ok v2. send lat_example r9 (cs9, lc9, [] @ Hier c9 hs9 # [], []) = Inr (ok, v2) \<Longrightarrow>
           \<exists>cs2 c2 hs2 ctx2. refocus (length ([] :: Hierarchy list)) v2 = Some (cs2, c2, hs2, ctx2) \<and>
             send lat_example (Request_new 4096 READ)
               (cs_example, cache_L2_empty, [], [(cache_L3_below_full, [], [])]) =
             Inr (True, (cs2, if \<not> ok then c2\<lparr>retry_list := retry_list c2 @ [r9]\<rparr> else c2, hs2, ctx2))"
    by blast
  have "(case send_here lat_example (Request_new 4096 READ)
                (cs_example, cache_L2_empty, [], Some cache_L3_below_full) of
           Inr (b, Some r, (cs1, c1, hs1, Some lc1)) \<Rightarrow>
             map_sum id fst (send lat_example r (cs1, lc1, [] @ Hier c1 hs1 # [], []))
         | _ \<Rightarrow> Inl NotWired) = Inr False"
    by code_simp
  with h9 lo9 have "map_sum id fst (send lat_example r9 (cs9, lc9, [] @ Hier c9 hs9 # [], [])) = Inr False"
    by simp
  from fst_Inr[OF this] obtain v9 where
    "send lat_example r9 (cs9, lc9, [] @ Hier c9 hs9 # [], []) = Inr (False, v9)" ..
  from f9[OF this]
  have i: "map_sum id fst (send lat_example (Request_new 4096 READ)
      (cs_example, cache_L2_empty, [], [(cache_L3_below_full, [], [])])) = Inr True"
    by (elim exE conjE) (rule Inr_fst)
  from a b c d e f g h i show ?thesis by blast
qed

section \<open>Cache::tick\<close>

text \<open>
  Claim C7 at a concrete input. The L2 has the reads of blocks 0 and 64 in its
  \<open>retry_list\<close>, and the empty L3 below it (the last level, so it is not ticked) accepts
  either. \<open>tick\<close> sends the first read, which is absorbed and erased, and then steps over
  the second: the L3 has seen one access, \<open>wait_list\<close> holds the first read only, and the
  second read is still in \<open>retry_list\<close> although \<open>lower_cache->send\<close> on it returns true
  in the state that \<open>tick\<close> leaves.
\<close>

theorem tick_skips_after_erase:
  "(case tick lat_example (cs_example, cache_L2_retry, [], [(cache_L3, [], [])]) of
      Inl f \<Rightarrow> False
    | Inr (cs, c, hs, ctx) \<Rightarrow>
        retry_list c = [Request_new 64 READ] \<and>
        map (\<lambda>fr. cache_total_access (fst fr)) ctx = [1] \<and>
        wait_list cs = [(140, Request_new 0 READ)] \<and>
        map_sum id fst (send_lower lat_example (Request_new 64 READ) (cs, c, hs, ctx)) = Inr True)"
  by code_simp

text \<open>
  With a single request in \<open>retry_list\<close> that the L3 absorbs, \<open>erase\<close> returns \<open>end()\<close> and
  the loop header increments it.
\<close>

lemma tick_increments_end:
  "tick lat_example (cs_example, cache_L2_retry_one, [], [(cache_L3, [], [])]) = Inl InvalidIterator"
  by code_simp

section \<open>The order of wait_list\<close>

text \<open>
  \<open>wait_list\<close> need not be sorted by ready time: a miss in the last-level cache that
  evicts a block held dirty above it queues the write-back, delayed by the invalidation,
  before the read.
\<close>

lemma send_wait_list_unsorted:
  "(case send lat_example (Request_new 4096 READ)
           (cs_example, cache_L3_one_way, [Hier cache_L2_dirty []], []) of
      Inl f \<Rightarrow> False
    | Inr (b, (cs, c, hs, ctx)) \<Rightarrow> b \<and> wait_list cs = wait_list cs_unsorted)"
  by code_simp

section \<open>Locked lines\<close>

text \<open>
  \<open>invalidate\<close> stops at its assertion when the line of the address is locked, and when
  it returns with the line found, the line was unlocked and is erased.
\<close>

lemma invalidate_locked:
  "lines_at c (get_index c a) = Some ls \<Longrightarrow> find_if (tag_match c a) ls = Some i \<Longrightarrow>
   lock (snd (ls ! i)) \<Longrightarrow> invalidate lat a (Hier c hs) = Inl AssertionFailed"
  by (auto simp: get_lines_def Let_def)

lemma invalidate_erases_unlocked:
  assumes "invalidate lat a (Hier c hs) = Inr (r, Hier c' hs')"
    and "lines_at c (get_index c a) = Some ls" and "find_if (tag_match c a) ls = Some i"
  shows "\<not> lock (snd (ls ! i)) \<and> lines_at c' (get_index c a) = Some (erase i ls)"
proof -
  have ne: "ls \<noteq> []" using assms(3) by auto
  have nl: "\<not> lock (snd (ls ! i))"
    using invalidate_locked[OF assms(2,3), of lat hs] assms(1) by auto
  have "c' = put_lines (get_index c a) (erase i ls) c"
    using assms nl ne by (auto simp: get_lines_def Let_def split: if_splits sum.splits)
  then show ?thesis using nl by simp
qed

text \<open>
  The victim that \<open>allocate_line\<close> hands to \<open>evict\<close> is unlocked, and unless the cache is
  the first level, \<open>check_unlock\<close> holds for its address in every higher cache.
\<close>

lemma allocate_line_victim:
  assumes "find_if (victim_ok c hs) ls = Some v"
  shows "\<not> lock (snd (ls ! v)) \<and>
         (\<not> is_first_level c \<longrightarrow>
            (\<forall>hc \<in> set hs. check_unlock (cache_of hc) (addr (snd (ls ! v)))))"
  using assms by (auto simp: find_if_Some_iff victim_ok_def list_all_iff split: if_splits)

text \<open>
  \<open>check_unlock\<close>, as the spec describes it, looks at one cache. It keeps the assertion
  of \<open>invalidate\<close> from failing when the higher caches have no higher caches of their
  own.
\<close>

lemma check_unlock_invalidate:
  assumes "check_unlock c a"
  shows "\<exists>r c'. invalidate lat a (Hier c []) = Inr (r, Hier c' [])"
proof (cases "lines_at c (get_index c a)")
  case None
  then show ?thesis by (auto simp: get_lines_def)
next
  case (Some ls)
  show ?thesis
  proof (cases "find_if (tag_match c a) ls")
    case None
    then show ?thesis using Some by (auto simp: get_lines_def Let_def)
  next
    case (Some i)
    then have "\<not> lock (snd (ls ! i))" using assms \<open>lines_at c (get_index c a) = Some ls\<close>
      by (simp add: check_unlock_def)
    then show ?thesis using Some \<open>lines_at c (get_index c a) = Some ls\<close>
      by (auto simp: get_lines_def Let_def)
  qed
qed

lemma evict_invalidate_two_levels:
  assumes "\<forall>hc \<in> set hs. check_unlock (cache_of hc) a \<and> (\<exists>c'. hc = Hier c' [])"
  shows "\<exists>r hs'. evict_invalidate lat lv a vd hs acc = Inr (r, hs')"
  using assms
proof (induction hs arbitrary: acc)
  case Nil
  then show ?case by simp
next
  case (Cons hc rest)
  then obtain c' where hc: "hc = Hier c' []" and cu: "check_unlock c' a" by auto
  from check_unlock_invalidate[OF cu, of lat] obtain r c'' where
    i: "invalidate lat a hc = Inr (r, Hier c'' [])" using hc by auto
  from Cons.IH[of "(max (fst acc) (fst r + (if snd r then latency_each lat lv else 0)),
                   snd acc \<or> snd r \<or> vd)"] Cons.prems
  obtain r' hs' where "evict_invalidate lat lv a vd rest
      (max (fst acc) (fst r + (if snd r then latency_each lat lv else 0)), snd acc \<or> snd r \<or> vd)
        = Inr (r', hs')" by auto
  then show ?case using i by (simp del: invalidate.simps)
qed

text \<open>
  With three levels it does not. The first L1 reads block 0 and block 64, each filled by
  a callback, and reads block 0 again: its line for block 0 is locked while the L2 hits.
  When the second L1 then reads block 128, the L3 evicts block 0, which the L2 holds
  unlocked, and the invalidation reaches the locked line of the first L1.
\<close>

lemma invalidate_assertion_three_levels:
  "(case run [send_at lat_example [0, 0] (Request_new 0 READ),
              callback_root (Request_new 0 READ),
              send_at lat_example [0, 0] (Request_new 64 READ),
              callback_root (Request_new 64 READ),
              send_at lat_example [0, 0] (Request_new 0 READ)]
             (cs_example, hierarchy_three) of
      Inl f \<Rightarrow> False
    | Inr s \<Rightarrow> send_at lat_example [0, 1] (Request_new 128 READ) s = Inl AssertionFailed)"
  by code_simp


end
